theory Spec2Isabelle
  imports Complex_Main
begin

section \<open>The SRLC download script: strings, integers and dictionaries of Python\<close>

text \<open>
  The program is \<^verbatim>\<open>src/pvlens-db/python/srlc/download_srlc_data.py\<close>: it reads a CSV export of
  FDA label changes, extracts an integer identifier from every row's \<^verbatim>\<open>Link\<close> column, and
  either downloads one HTML page per identifier or compares the number of files already on
  disk with the number of identifiers.

  A Python \<^verbatim>\<open>str\<close> is modelled as a \<^typ>\<open>string\<close> whose characters are the code points
  below 256, and \<^verbatim>\<open>bytes\<close> as a list of 8-bit characters as well. Python's \<^verbatim>\<open>int\<close> is
  \<^typ>\<open>int\<close>. The interpreter refuses to convert between strings and integers of more than
  4300 decimal digits (its default setting); \<^verbatim>\<open>int()\<close> is modelled with this limit. The
  program applies \<^verbatim>\<open>str()\<close> only to identifiers that \<^verbatim>\<open>int()\<close> has returned and to counts
  of rows, keys and files, where the limit is not reached, so \<^verbatim>\<open>str()\<close> is modelled without
  it.
\<close>

type_synonym bytes = "char list"

datatype error = IndexError | ValueError | KeyError | ConnectionError

subsection \<open>\<^verbatim>\<open>str.split(sep)\<close> with a one-character separator\<close>

text \<open>
  \<^verbatim>\<open>s.split(sep)\<close> cuts at every occurrence of the separator and keeps empty pieces, so a
  string with \<open>n\<close> separators gives \<open>n + 1\<close> pieces and the empty string gives one empty piece.
\<close>

fun str_split :: "char \<Rightarrow> string \<Rightarrow> string list" where
  "str_split sep [] = [[]]"
| "str_split sep (c # cs) =
     (if c = sep then [] # str_split sep cs
      else (c # hd (str_split sep cs)) # tl (str_split sep cs))"

text \<open>\<^verbatim>\<open>xs[i]\<close> for a non-negative index: out of range raises \<^verbatim>\<open>IndexError\<close>.\<close>

definition index :: "'a list \<Rightarrow> nat \<Rightarrow> error + 'a" where
  "index xs i = (if i < length xs then Inr (xs ! i) else Inl IndexError)"

subsection \<open>\<^verbatim>\<open>int(s)\<close> and \<^verbatim>\<open>str(n)\<close>\<close>

text \<open>
  \<^verbatim>\<open>int(s)\<close> in base 10 skips leading whitespace, reads an optional sign, refuses a leading
  underscore, scans digits and underscores (no two underscores in a row, none at the end, at
  least one digit), skips trailing whitespace and refuses anything left over. Whitespace is
  tab, line feed, vertical tab, form feed, carriage return and space, and for a string with
  non-ASCII characters also the code points 0x85 and 0xA0. A scan of more than
  \<^verbatim>\<open>sys.int_info.default_max_str_digits\<close> digits, leading zeros counted and underscores
  not, is refused as well. Every refusal is a \<^verbatim>\<open>ValueError\<close>.
\<close>

definition max_str_digits :: nat where
  "max_str_digits = 4300"

definition isspace :: "char \<Rightarrow> bool" where
  "isspace c = (of_char c \<in> {9, 10, 11, 12, 13, 32, 133, 160 :: nat})"

definition isdigit :: "char \<Rightarrow> bool" where
  "isdigit c = (48 \<le> (of_char c :: nat) \<and> (of_char c :: nat) \<le> 57)"

definition digit_value :: "char \<Rightarrow> nat" where
  "digit_value c = of_char c - 48"

fun underscores_ok :: "string \<Rightarrow> bool" where
  "underscores_ok [] = True"
| "underscores_ok [c] = (c \<noteq> CHR ''_'')"
| "underscores_ok (c # d # cs) =
     (\<not> (c = CHR ''_'' \<and> d = CHR ''_'') \<and> underscores_ok (d # cs))"

definition digits_value :: "string \<Rightarrow> nat" where
  "digits_value ds = foldl (\<lambda>a c. 10 * a + digit_value c) 0 ds"

definition int_of_str :: "string \<Rightarrow> error + int" where
  "int_of_str s =
     (let s1 = dropWhile isspace s;
          neg = (s1 \<noteq> [] \<and> hd s1 = CHR ''-'');
          s2 = (if s1 \<noteq> [] \<and> (hd s1 = CHR ''+'' \<or> hd s1 = CHR ''-'') then tl s1 else s1);
          scanned = takeWhile (\<lambda>c. isdigit c \<or> c = CHR ''_'') s2;
          rest = dropWhile (\<lambda>c. isdigit c \<or> c = CHR ''_'') s2
      in if s2 \<noteq> [] \<and> hd s2 = CHR ''_'' then Inl ValueError
         else if \<not> underscores_ok scanned then Inl ValueError
         else if max_str_digits < length (filter isdigit scanned) then Inl ValueError
         else if scanned = [] then Inl ValueError
         else if dropWhile isspace rest \<noteq> [] then Inl ValueError
         else Inr ((if neg then - 1 else 1) * int (digits_value (filter isdigit scanned))))"

text \<open>\<^verbatim>\<open>str(n)\<close>: the decimal digits without leading zeros, after a minus sign when negative.\<close>

definition digit_char :: "nat \<Rightarrow> char" where
  "digit_char d = char_of (48 + d)"

fun str_nat :: "nat \<Rightarrow> string" where
  "str_nat n = (if n < 10 then [digit_char n] else str_nat (n div 10) @ [digit_char (n mod 10)])"

declare str_nat.simps [simp del]

definition str :: "int \<Rightarrow> string" where
  "str n = (if n < 0 then CHR ''-'' # str_nat (nat (- n)) else str_nat (nat n))"

subsection \<open>Extraction of the identifier from a link\<close>

text \<open>
  Line 91: \<^verbatim>\<open>drug_id = int(prd_url.split("&")[1].split("=")[1])\<close>. Either index can
  raise \<^verbatim>\<open>IndexError\<close>, the conversion can raise \<^verbatim>\<open>ValueError\<close>.
\<close>

definition extract_drug_id :: "string \<Rightarrow> error + int" where
  "extract_drug_id prd_url =
     (case index (str_split CHR ''&'' prd_url) 1 of
        Inl e \<Rightarrow> Inl e
      | Inr seg \<Rightarrow>
          (case index (str_split CHR ''='' seg) 1 of
             Inl e \<Rightarrow> Inl e
           | Inr v \<Rightarrow> int_of_str v))"

subsection \<open>What the specification calls a numeric value\<close>

text \<open>
  The specification speaks of a value that is "integer-parseable". Written down without
  reference to the scanner above: after the surrounding whitespace and one optional sign are
  removed, the value consists of non-empty groups of decimal digits joined by single
  underscores. Its value is the decimal value of its digits, negated after a minus sign, and
  the number of its digits is what the interpreter's limit is about.
\<close>

definition strip :: "string \<Rightarrow> string" where
  "strip s = rev (dropWhile isspace (rev (dropWhile isspace s)))"

definition unsigned :: "string \<Rightarrow> string" where
  "unsigned s = (if s \<noteq> [] \<and> (hd s = CHR ''+'' \<or> hd s = CHR ''-'') then tl s else s)"

definition groups_ok :: "string \<Rightarrow> bool" where
  "groups_ok b = list_all (\<lambda>g. g \<noteq> [] \<and> list_all isdigit g) (str_split CHR ''_'' b)"

definition integer_literal :: "string \<Rightarrow> bool" where
  "integer_literal v = groups_ok (unsigned (strip v))"

definition literal_digits :: "string \<Rightarrow> nat" where
  "literal_digits v = length (filter isdigit (strip v))"

definition literal_value :: "string \<Rightarrow> int" where
  "literal_value v =
     (if hd (strip v) = CHR ''-'' then - 1 else 1) * int (digits_value (filter isdigit (strip v)))"

abbreviation scanned_char :: "char \<Rightarrow> bool" where
  "scanned_char c \<equiv> isdigit c \<or> c = CHR ''_''"

section \<open>The program\<close>

subsection \<open>Dictionaries\<close>

text \<open>
  A Python \<^verbatim>\<open>dict\<close> keeps its keys in the order of their first insertion, and
  \<^verbatim>\<open>d[k] = v\<close> on a key that is present replaces the value where it stands. The model is
  an association list with exactly this update; \<^verbatim>\<open>d.keys()\<close> lists the keys in order and
  \<^verbatim>\<open>d[k]\<close> raises \<^verbatim>\<open>KeyError\<close> on a missing key.
\<close>

type_synonym ('k, 'v) dict = "('k \<times> 'v) list"

fun dict_set :: "'k \<Rightarrow> 'v \<Rightarrow> ('k, 'v) dict \<Rightarrow> ('k, 'v) dict" where
  "dict_set k v [] = [(k, v)]"
| "dict_set k v (kv # d) = (if fst kv = k then (k, v) # d else kv # dict_set k v d)"

definition dict_get :: "('k, 'v) dict \<Rightarrow> 'k \<Rightarrow> error + 'v" where
  "dict_get d k = (case map_of d k of None \<Rightarrow> Inl KeyError | Some v \<Rightarrow> Inr v)"

definition keys :: "('k, 'v) dict \<Rightarrow> 'k list" where
  "keys d = map fst d"

subsection \<open>The catalog loop (lines 82 to 96)\<close>

text \<open>
  A row of the CSV file, with the two columns the program reads, both strings as in the data
  model of the specification (a cell that the CSV reader would not deliver as a string is
  outside the model). The loop state is the two dictionaries and the counter; an exception
  of the extraction leaves the loop at once.
\<close>

record row =
  application_number :: string
  link :: string

type_synonym catalog = "(int, string) dict \<times> (int, string) dict \<times> nat"

fun load_rows :: "row list \<Rightarrow> catalog \<Rightarrow> error + catalog" where
  "load_rows [] s = Inr s"
| "load_rows (r # rs) (drug_links, drug_appid_links, counter) =
     (case extract_drug_id (link r) of
        Inl e \<Rightarrow> Inl e
      | Inr drug_id \<Rightarrow>
          load_rows rs (dict_set drug_id (link r) drug_links,
                        dict_set drug_id (application_number r) drug_appid_links,
                        counter + 1))"

definition load_catalog :: "row list \<Rightarrow> error + catalog" where
  "load_catalog labels = load_rows labels ([], [], 0)"

subsection \<open>The network, the file system and the events of a run\<close>

text \<open>
  What the program does to the world is recorded as a list of events, in order. The file
  system is a dictionary from path to content; the output directory is taken to exist and to
  be writable. A request either fails to connect (\<^verbatim>\<open>requests.get\<close> raises) or gives a
  response; \<^verbatim>\<open>iter_content(chunk_size)\<close> of a response yields a list of chunks and then
  either ends or raises in the middle of the body. \<^verbatim>\<open>time.sleep\<close> is an event that
  carries its duration in seconds; elapsed time itself is not modelled.
\<close>

datatype event =
    HttpGet string
  | FileOpen string
  | ChunkRead bytes
  | FileWrite string bytes
  | FileClose string
  | Print string
  | Sleep rat

type_synonym filesystem = "(string, bytes) dict"

type_synonym response = "nat \<Rightarrow> bytes list \<times> bool"

type_synonym network = "string \<Rightarrow> response option"

definition FDA_SRLC_PATH :: string where
  "FDA_SRLC_PATH = ''../../src/main/resources/fda_srlc/''"

definition FDA_SRLC_HTML_SRC :: string where
  "FDA_SRLC_HTML_SRC = FDA_SRLC_PATH @ ''html_download/''"

definition DATA_PATH :: string where
  "DATA_PATH = FDA_SRLC_HTML_SRC"

definition WAIT_TIME :: rat where
  "WAIT_TIME = 0.2"

text \<open>\<^verbatim>\<open>open(f, 'wb')\<close> creates the file or empties it; \<^verbatim>\<open>f.write(chunk)\<close> appends.\<close>

definition open_wb :: "string \<Rightarrow> filesystem \<Rightarrow> filesystem" where
  "open_wb f fs = dict_set f [] fs"

definition file_write :: "string \<Rightarrow> bytes \<Rightarrow> filesystem \<Rightarrow> filesystem" where
  "file_write f chunk fs =
     dict_set f ((case map_of fs f of None \<Rightarrow> [] | Some old \<Rightarrow> old) @ chunk) fs"

text \<open>
  \<^verbatim>\<open>os.listdir(path)\<close>: the names directly under the directory, a file in a subdirectory
  counting as the one entry of that subdirectory. The path ends with a slash here.
\<close>

definition listdir :: "string \<Rightarrow> filesystem \<Rightarrow> string list" where
  "listdir path fs =
     remdups (map (\<lambda>p. takeWhile (\<lambda>c. c \<noteq> CHR ''/'') (drop (length path) p))
                  (filter (\<lambda>p. take (length path) p = path \<and> length path < length p)
                          (keys fs)))"

subsection \<open>\<^verbatim>\<open>download_file\<close> (lines 64 to 72)\<close>

fun write_chunks :: "string \<Rightarrow> bytes list \<Rightarrow> filesystem \<Rightarrow> event list \<times> filesystem" where
  "write_chunks f [] fs = ([], fs)"
| "write_chunks f (chunk # chunks) fs =
     (if chunk \<noteq> []
      then (let (evs, fs') = write_chunks f chunks (file_write f chunk fs)
            in (ChunkRead chunk # FileWrite f chunk # evs, fs'))
      else (let (evs, fs') = write_chunks f chunks fs
            in (ChunkRead chunk # evs, fs')))"

definition download_file ::
    "network \<Rightarrow> string \<Rightarrow> string \<Rightarrow> filesystem \<Rightarrow> (error + string) \<times> event list \<times> filesystem" where
  "download_file net url local_filename fs =
     (case net url of
        None \<Rightarrow> (Inl ConnectionError, [HttpGet url], fs)
      | Some r \<Rightarrow>
          (let (chunks, complete) = r 1024;
               (evs, fs') = write_chunks local_filename chunks (open_wb local_filename fs)
           in (if complete then Inr local_filename else Inl ConnectionError,
               [HttpGet url, FileOpen local_filename] @ evs @ [FileClose local_filename],
               fs')))"

subsection \<open>The download loop (lines 113 to 125)\<close>

definition progress_line :: "int \<Rightarrow> string \<Rightarrow> string" where
  "progress_line drug_id prd_url =
     ''Saving Product Label Change: '' @ str drug_id @ '' URL: '' @ prd_url"

definition milestone :: "nat \<Rightarrow> event list" where
  "milestone counter = (if counter mod 100 = 0 then [Print (''>> '' @ str (int counter))] else [])"

fun fetch_loop ::
    "network \<Rightarrow> (int, string) dict \<Rightarrow> int list \<Rightarrow> nat \<Rightarrow> filesystem
      \<Rightarrow> (error + nat) \<times> event list \<times> filesystem" where
  "fetch_loop net drug_links [] counter fs = (Inr counter, [], fs)"
| "fetch_loop net drug_links (drug_id # ids) counter fs =
     (case dict_get drug_links drug_id of
        Inl e \<Rightarrow> (Inl e, [], fs)
      | Inr prd_url \<Rightarrow>
          (let out_file = str drug_id @ ''.html'' in
           case download_file net prd_url (DATA_PATH @ out_file) fs of
             (Inl e, evs, fs1) \<Rightarrow> (Inl e, evs, fs1)
           | (Inr _, evs, fs1) \<Rightarrow>
               (let (res, evs', fs2) = fetch_loop net drug_links ids (counter + 1) fs1
                in (res,
                    evs @ [Print (progress_line drug_id prd_url), Sleep WAIT_TIME]
                        @ milestone (counter + 1) @ evs',
                    fs2))))"

subsection \<open>The completeness check (lines 129 to 136)\<close>

definition check_files :: "(int, string) dict \<Rightarrow> filesystem \<Rightarrow> event list" where
  "check_files drug_links fs =
     (let all_files = listdir DATA_PATH fs;
          expected = length (keys drug_links);
          found = length all_files
      in if expected = found
         then [Print (''Total files: '' @ str (int (length all_files))),
               Print ''Skippping, data already downloaded!'']
         else [Print (''There are some files missing, expected: '' @ str (int expected)
                      @ '' Found: '' @ str (int found))])"

subsection \<open>The main program (lines 77 to 138)\<close>

text \<open>
  \<^verbatim>\<open>DOWNLOAD_DATA\<close> is a constant of the script that its author edits by hand; it is a
  parameter here. The result is the exception that ended the run, if any, the events of the
  run and the file system afterwards.
\<close>

definition summary :: "catalog \<Rightarrow> event list" where
  "summary c =
     (case c of (drug_links, drug_appid_links, counter) \<Rightarrow>
        [Print (''Total links: '' @ str (int counter)),
         Print (''Unique entries: '' @ str (int (length (keys drug_links)))),
         Print (''Unique entries: '' @ str (int (length (keys drug_appid_links))))])"

definition main ::
    "bool \<Rightarrow> row list \<Rightarrow> network \<Rightarrow> filesystem \<Rightarrow> error option \<times> event list \<times> filesystem" where
  "main DOWNLOAD_DATA labels net fs =
     (case load_catalog labels of
        Inl e \<Rightarrow> (Some e, [], fs)
      | Inr (drug_links, drug_appid_links, counter) \<Rightarrow>
          if DOWNLOAD_DATA
          then (let all_files = listdir DATA_PATH fs in
                case fetch_loop net drug_links (keys drug_links) 0 fs of
                  (Inl e, evs, fs') \<Rightarrow>
                    (Some e, summary (drug_links, drug_appid_links, counter) @ evs, fs')
                | (Inr _, evs, fs') \<Rightarrow>
                    (None,
                     summary (drug_links, drug_appid_links, counter) @ evs
                       @ [Print ''SRLC downloads complete!''],
                     fs'))
          else (None,
                summary (drug_links, drug_appid_links, counter) @ check_files drug_links fs
                  @ [Print ''SRLC downloads complete!''],
                fs))"

subsection \<open>Vocabulary of the properties\<close>

text \<open>
  A link is malformed when it lacks the structure the extraction relies on, or when the value
  in that place is not an integer literal.
\<close>

definition malformed :: "string \<Rightarrow> bool" where
  "malformed l =
     (let segments = str_split CHR ''&'' l in
      if length segments < 2 then True
      else (let parts = str_split CHR ''='' (segments ! 1) in
            if length parts < 2 then True
            else \<not> integer_literal (parts ! 1)))"

text \<open>
  The pacing of a run, as a monitor over its events: a request may only be issued when the
  program has slept since the previous request, every sleep lasts \<^term>\<open>WAIT_TIME\<close>, and
  files are only touched between a request and the sleep that follows it.
\<close>

fun paced :: "bool \<Rightarrow> event list \<Rightarrow> bool" where
  "paced rested [] = True"
| "paced rested (HttpGet u # es) = (rested \<and> paced False es)"
| "paced rested (Sleep d # es) = (d = WAIT_TIME \<and> paced True es)"
| "paced rested (Print s # es) = paced rested es"
| "paced rested (e # es) = (\<not> rested \<and> paced rested es)"

fun is_file_event :: "event \<Rightarrow> bool" where
  "is_file_event (FileOpen f) = True"
| "is_file_event (ChunkRead c) = True"
| "is_file_event (FileWrite f c) = True"
| "is_file_event (FileClose f) = True"
| "is_file_event e = False"

fun is_get :: "event \<Rightarrow> bool" where
  "is_get (HttpGet u) = True"
| "is_get e = False"

definition printed :: "event list \<Rightarrow> string list" where
  "printed evs = concat (map (\<lambda>e. case e of Print s \<Rightarrow> [s] | _ \<Rightarrow> []) evs)"

definition opened :: "event list \<Rightarrow> string list" where
  "opened evs = concat (map (\<lambda>e. case e of FileOpen f \<Rightarrow> [f] | _ \<Rightarrow> []) evs)"

definition requested :: "event list \<Rightarrow> string list" where
  "requested evs = concat (map (\<lambda>e. case e of HttpGet u \<Rightarrow> [u] | _ \<Rightarrow> []) evs)"

definition written :: "event list \<Rightarrow> (string \<times> bytes) list" where
  "written evs = concat (map (\<lambda>e. case e of FileWrite f c \<Rightarrow> [(f, c)] | _ \<Rightarrow> []) evs)"

definition out_path :: "int \<Rightarrow> string" where
  "out_path drug_id = DATA_PATH @ str drug_id @ ''.html''"

text \<open>The events of the loop of \<^verbatim>\<open>download_file\<close> over the chunks of a response.\<close>

definition chunk_events :: "string \<Rightarrow> bytes list \<Rightarrow> event list" where
  "chunk_events f chunks =
     concat (map (\<lambda>c. if c \<noteq> [] then [ChunkRead c, FileWrite f c] else [ChunkRead c]) chunks)"

text \<open>
  The lines that the download loop prints for the entries of the dictionary that it has
  completed, the counter standing at \<open>k\<close> after the entry.
\<close>

definition loop_lines :: "(nat \<times> int \<times> string) list \<Rightarrow> string list" where
  "loop_lines done =
     concat (map (\<lambda>(k, drug_id, prd_url).
                    progress_line drug_id prd_url
                      # (if k mod 100 = 0 then [''>> '' @ str (int k)] else []))
                 done)"

section \<open>Properties of the string and integer primitives\<close>

subsection \<open>Splitting\<close>

lemma str_split_nonempty [simp]: "str_split sep s \<noteq> []"
  by (induction s) auto

lemma str_split_no_sep: "sep \<notin> set s \<Longrightarrow> str_split sep s = [s]"
  by (induction s) auto

lemma str_split_cut: "sep \<notin> set p \<Longrightarrow> str_split sep (p @ sep # r) = p # str_split sep r"
  by (induction p) auto

lemma hd_str_split: "hd (str_split sep s) = takeWhile (\<lambda>c. c \<noteq> sep) s"
  by (induction s) auto

lemma length_str_split: "length (str_split sep s) = Suc (count_list s sep)"
proof (induction s)
  case Nil
  show ?case by simp
next
  case (Cons c cs)
  have "length (tl (str_split sep cs)) = count_list cs sep"
    using Cons by simp
  then show ?case using Cons by simp
qed

lemma concat_str_split: "concat (str_split sep s) = filter (\<lambda>c. c \<noteq> sep) s"
proof (induction s)
  case Nil
  show ?case by simp
next
  case (Cons c cs)
  obtain w ws where w: "str_split sep cs = w # ws"
    by (cases "str_split sep cs") auto
  show ?case using Cons w by simp
qed

lemma pieces_str_split: "g \<in> set (str_split sep s) \<Longrightarrow> sep \<notin> set g"
proof (induction s arbitrary: g)
  case Nil
  then show ?case by simp
next
  case (Cons c cs)
  obtain w ws where w: "str_split sep cs = w # ws"
    by (cases "str_split sep cs") auto
  show ?case using Cons w by (auto split: if_splits)
qed

subsection \<open>The scanner of \<^verbatim>\<open>int()\<close> accepts exactly the integer literals\<close>

lemma isdigit_facts:
  "isdigit c \<Longrightarrow> \<not> isspace c" "isdigit c \<Longrightarrow> c \<noteq> CHR ''_''" "isdigit c \<Longrightarrow> c \<noteq> CHR ''+''"
  "isdigit c \<Longrightarrow> c \<noteq> CHR ''-''" "isdigit c \<Longrightarrow> c \<noteq> CHR ''&''" "isdigit c \<Longrightarrow> c \<noteq> CHR ''=''"
  by (auto simp: isdigit_def isspace_def)

lemma not_space_facts [simp]:
  "\<not> isspace CHR ''_''" "\<not> isspace CHR ''+''" "\<not> isspace CHR ''-''"
  "\<not> isdigit CHR ''_''" "\<not> isdigit CHR ''+''" "\<not> isdigit CHR ''-''"
  by (auto simp: isdigit_def isspace_def)

lemma underscores_ok_lead:
  "underscores_ok (CHR ''_'' # cs) \<longleftrightarrow> cs \<noteq> [] \<and> hd cs \<noteq> CHR ''_'' \<and> underscores_ok cs"
  by (cases cs) auto

lemma underscores_ok_digit:
  "c \<noteq> CHR ''_'' \<Longrightarrow> underscores_ok (c # cs) \<longleftrightarrow> underscores_ok cs"
  by (cases cs) auto

lemma groups_ok_Nil [simp]: "\<not> groups_ok []"
  by (simp add: groups_ok_def)

lemma groups_ok_underscore [simp]: "\<not> groups_ok (CHR ''_'' # cs)"
  by (simp add: groups_ok_def)

lemma groups_ok_single: "groups_ok [c] \<longleftrightarrow> isdigit c"
  by (auto simp: groups_ok_def)

lemma groups_ok_digit_underscore:
  "c \<noteq> CHR ''_'' \<Longrightarrow> groups_ok (c # CHR ''_'' # cs) \<longleftrightarrow> isdigit c \<and> groups_ok cs"
  by (auto simp: groups_ok_def)

lemma groups_ok_digit_digit:
  assumes "c \<noteq> CHR ''_''" "d \<noteq> CHR ''_''"
  shows "groups_ok (c # d # cs) \<longleftrightarrow> isdigit c \<and> groups_ok (d # cs)"
proof -
  obtain w ws where w: "str_split CHR ''_'' cs = w # ws"
    by (cases "str_split CHR ''_'' cs") auto
  show ?thesis using assms w by (auto simp: groups_ok_def)
qed

lemma groups_ok_iff:
  "groups_ok b \<longleftrightarrow> b \<noteq> [] \<and> hd b \<noteq> CHR ''_'' \<and> list_all scanned_char b \<and> underscores_ok b"
proof (induction b rule: length_induct)
  case (1 b)
  show ?case
  proof (cases b)
    case Nil
    then show ?thesis by simp
  next
    case (Cons c cs)
    note b = Cons
    show ?thesis
    proof (cases "c = CHR ''_''")
      case True
      then show ?thesis using b by simp
    next
      case cnot: False
      show ?thesis
      proof (cases cs)
        case Nil
        then show ?thesis using b cnot by (auto simp: groups_ok_single)
      next
        case (Cons d ds)
        show ?thesis
        proof (cases "d = CHR ''_''")
          case True
          have "length ds < length b" using b Cons by simp
          then have ih: "groups_ok ds \<longleftrightarrow>
              ds \<noteq> [] \<and> hd ds \<noteq> CHR ''_'' \<and> list_all scanned_char ds \<and> underscores_ok ds"
            using 1 by blast
          show ?thesis
            using b Cons True cnot ih
            by (auto simp: groups_ok_digit_underscore underscores_ok_lead underscores_ok_digit)
        next
          case False
          have "length (d # ds) < length b" using b Cons by simp
          then have ih: "groups_ok (d # ds) \<longleftrightarrow>
              d # ds \<noteq> [] \<and> hd (d # ds) \<noteq> CHR ''_'' \<and> list_all scanned_char (d # ds)
              \<and> underscores_ok (d # ds)"
            using 1 by blast
          show ?thesis
            using b Cons False cnot ih
            by (auto simp: groups_ok_digit_digit underscores_ok_digit)
        qed
      qed
    qed
  qed
qed

lemma scanned_not_space: "scanned_char c \<Longrightarrow> \<not> isspace c"
  by (auto simp: isdigit_facts)

lemma strip_unique:
  assumes "x \<noteq> []" "\<not> isspace (last x)" "list_all isspace w"
  shows "rev (dropWhile isspace (rev (x @ w))) = x"
proof -
  have "dropWhile isspace (rev w @ rev x) = dropWhile isspace (rev x)"
    using assms(3) by (intro dropWhile_append2) (simp add: list_all_iff)
  moreover have "dropWhile isspace (rev x) = rev x"
    using assms(1,2) by (cases x rule: rev_cases) auto
  ultimately show ?thesis by simp
qed

lemma strip_decomp:
  "\<exists>w. dropWhile isspace v = strip v @ w \<and> list_all isspace w
     \<and> (strip v = [] \<longrightarrow> w = []) \<and> (strip v \<noteq> [] \<longrightarrow> \<not> isspace (last (strip v)))"
proof -
  define s1 where "s1 = dropWhile isspace v"
  define w where "w = rev (takeWhile isspace (rev s1))"
  have t: "strip v = rev (dropWhile isspace (rev s1))"
    by (simp add: strip_def s1_def)
  have "rev (takeWhile isspace (rev s1) @ dropWhile isspace (rev s1)) = s1"
    by (simp only: takeWhile_dropWhile_id rev_rev_ident)
  then have dec: "s1 = strip v @ w"
    by (simp only: rev_append t w_def)
  have wsp: "list_all isspace w"
    by (auto simp: w_def list_all_iff dest: set_takeWhileD)
  have hd1: "s1 = [] \<or> \<not> isspace (hd s1)"
    unfolding s1_def using hd_dropWhile [of isspace v] by blast
  have e: "w = []" if "strip v = []"
  proof (rule ccontr)
    assume "w \<noteq> []"
    then have "s1 \<noteq> []" "isspace (hd s1)"
      using dec that wsp by (cases w; simp)+
    then show False using hd1 by simp
  qed
  have l: "\<not> isspace (last (strip v))" if "strip v \<noteq> []"
  proof -
    have "dropWhile isspace (rev s1) \<noteq> []" using that t by simp
    then have "\<not> isspace (hd (dropWhile isspace (rev s1)))"
      by (rule hd_dropWhile)
    then show ?thesis using that t by (simp add: last_rev)
  qed
  show ?thesis using dec [unfolded s1_def] wsp e l by blast
qed

lemma takeWhile_scanned_spaces:
  assumes "list_all scanned_char u" "list_all isspace w"
  shows "takeWhile scanned_char (u @ w) = u" "dropWhile scanned_char (u @ w) = w"
proof -
  have w: "takeWhile scanned_char w = []" "dropWhile scanned_char w = w"
    using assms(2) scanned_not_space by (cases w; auto)+
  show "takeWhile scanned_char (u @ w) = u"
    using assms(1) w by (simp add: takeWhile_append2 list_all_iff)
  show "dropWhile scanned_char (u @ w) = w"
    using assms(1) w by (simp add: dropWhile_append2 list_all_iff)
qed

lemma dropWhile_all: "list_all P w \<Longrightarrow> dropWhile P w = []"
  by (simp add: list_all_iff)

lemma filter_isdigit_unsigned: "filter isdigit (unsigned t) = filter isdigit t"
  by (cases t) (auto simp: unsigned_def)

lemma int_of_str_literal:
  "int_of_str v =
     (if integer_literal v \<and> literal_digits v \<le> max_str_digits
      then Inr (literal_value v) else Inl ValueError)"
proof -
  obtain w where dec: "dropWhile isspace v = strip v @ w" and wsp: "list_all isspace w"
    and e: "strip v = [] \<Longrightarrow> w = []" and l: "strip v \<noteq> [] \<Longrightarrow> \<not> isspace (last (strip v))"
    using strip_decomp [of v] by blast
  define t where "t = strip v"
  define u where "u = unsigned t"
  have lit: "integer_literal v = groups_ok u"
    by (simp add: integer_literal_def u_def t_def)
  have dig: "literal_digits v = length (filter isdigit u)"
    by (simp add: literal_digits_def u_def filter_isdigit_unsigned flip: t_def)
  show ?thesis
  proof (cases "t = []")
    case True
    then have h: "dropWhile isspace v = []" using dec e t_def by simp
    have "int_of_str v = Inl ValueError"
      unfolding int_of_str_def h by simp
    moreover have "\<not> groups_ok u" using True by (simp add: u_def unsigned_def)
    ultimately show ?thesis using lit by simp
  next
    case tne: False
    have s1: "dropWhile isspace v = t @ w" using dec t_def by simp
    have s2: "(if t @ w \<noteq> [] \<and> (hd (t @ w) = CHR ''+'' \<or> hd (t @ w) = CHR ''-'')
               then tl (t @ w) else t @ w) = u @ w"
      using tne by (simp add: u_def unsigned_def)
    have neg: "(t @ w \<noteq> [] \<and> hd (t @ w) = CHR ''-'') = (hd t = CHR ''-'')"
      using tne by simp
    have ios: "int_of_str v =
       (let scanned = takeWhile scanned_char (u @ w); rest = dropWhile scanned_char (u @ w)
        in if u @ w \<noteq> [] \<and> hd (u @ w) = CHR ''_'' then Inl ValueError
           else if \<not> underscores_ok scanned then Inl ValueError
           else if max_str_digits < length (filter isdigit scanned) then Inl ValueError
           else if scanned = [] then Inl ValueError
           else if dropWhile isspace rest \<noteq> [] then Inl ValueError
           else Inr ((if hd t = CHR ''-'' then - 1 else 1)
                  * int (digits_value (filter isdigit scanned))))"
      unfolding int_of_str_def s1 Let_def s2 neg by simp
    show ?thesis
    proof (cases "groups_ok u")
      case True
      then have g: "u \<noteq> []" "hd u \<noteq> CHR ''_''" "list_all scanned_char u" "underscores_ok u"
        using groups_ok_iff [of u] by auto
      have tw: "takeWhile scanned_char (u @ w) = u" "dropWhile scanned_char (u @ w) = w"
        using takeWhile_scanned_spaces [OF g(3) wsp] by auto
      have run: "int_of_str v =
          (if max_str_digits < length (filter isdigit u) then Inl ValueError
           else Inr ((if hd t = CHR ''-'' then - 1 else 1)
                  * int (digits_value (filter isdigit u))))"
        unfolding ios Let_def tw using g wsp by (simp add: dropWhile_all)
      have val: "(if hd t = CHR ''-'' then - 1 else 1) * int (digits_value (filter isdigit u))
          = literal_value v"
        by (simp add: literal_value_def u_def filter_isdigit_unsigned flip: t_def)
      show ?thesis
      proof (cases "max_str_digits < length (filter isdigit u)")
        case long: True
        then show ?thesis using run dig by simp
      next
        case False
        then show ?thesis using run val dig True lit by simp
      qed
    next
      case False
      have "int_of_str v = Inl ValueError"
      proof (rule ccontr)
        assume nf: "int_of_str v \<noteq> Inl ValueError"
        define scanned where "scanned = takeWhile scanned_char (u @ w)"
        define rest where "rest = dropWhile scanned_char (u @ w)"
        have ok: "\<not> (u @ w \<noteq> [] \<and> hd (u @ w) = CHR ''_'')" "underscores_ok scanned"
          "scanned \<noteq> []" "dropWhile isspace rest = []"
          using nf unfolding ios Let_def scanned_def rest_def by (auto split: if_splits)
        have eq: "u @ w = scanned @ rest" by (simp add: scanned_def rest_def)
        have sc: "list_all scanned_char scanned"
          by (auto simp: scanned_def list_all_iff dest: set_takeWhileD)
        have une: "u \<noteq> []"
        proof
          assume "u = []"
          then have "scanned = []"
            using takeWhile_scanned_spaces(1) [of "[]" w] wsp by (simp add: scanned_def)
          then show False using ok(3) by simp
        qed
        have "last u = last t"
          using une tne by (auto simp: u_def unsigned_def last_tl split: if_splits)
        then have lu: "\<not> isspace (last u)" using l tne t_def by simp
        have ls: "\<not> isspace (last scanned)"
          using ok(3) sc scanned_not_space [of "last scanned"] last_in_set [of scanned]
          by (auto simp: list_all_iff)
        have rsp: "list_all isspace rest"
          using ok(4) by (simp add: list_all_iff dropWhile_eq_Nil_conv)
        have "u = rev (dropWhile isspace (rev (u @ w)))"
          using strip_unique [OF une lu wsp] by simp
        also have "\<dots> = scanned"
          unfolding eq using strip_unique [OF ok(3) ls rsp] .
        finally have us: "u = scanned" .
        have "groups_ok u"
          using groups_ok_iff [of u] une ok(1,2) sc us by auto
        then show False using False by simp
      qed
      then show ?thesis using False lit by simp
    qed
  qed
qed

subsection \<open>\<^verbatim>\<open>int(str(n))\<close> gives \<open>n\<close> back\<close>

lemma digit_char_props:
  assumes "d < 10"
  shows "isdigit (digit_char d)" "digit_value (digit_char d) = d"
  using assms by (auto simp: isdigit_def digit_value_def digit_char_def)

lemma str_nat_digits: "list_all isdigit (str_nat n)"
proof (induction n rule: str_nat.induct)
  case (1 n)
  show ?case
    using 1 by (subst str_nat.simps) (simp add: digit_char_props)
qed

lemma str_nat_nonempty [simp]: "str_nat n \<noteq> []"
  by (subst str_nat.simps) simp

lemma digits_value_snoc: "digits_value (ds @ [c]) = 10 * digits_value ds + digit_value c"
  by (simp add: digits_value_def)

lemma digits_value_str_nat: "digits_value (str_nat n) = n"
proof (induction n rule: str_nat.induct)
  case (1 n)
  show ?case
  proof (cases "n < 10")
    case True
    then show ?thesis
      by (subst str_nat.simps) (simp add: digits_value_def digit_char_props)
  next
    case False
    then have "digits_value (str_nat (n div 10)) = n div 10" using 1 by simp
    then show ?thesis
      using False by (subst str_nat.simps) (simp add: digits_value_snoc digit_char_props)
  qed
qed

lemma isdigit_not_space_hd: "list_all isdigit ds \<Longrightarrow> dropWhile isspace ds = ds"
  by (cases ds) (auto simp: isdigit_facts)

lemma strip_digits:
  assumes "ds \<noteq> []" "list_all isdigit ds"
  shows "strip ds = ds" "strip (CHR ''-'' # ds) = CHR ''-'' # ds"
proof -
  have l: "\<not> isspace (last ds)"
    using assms last_in_set [of ds] by (auto simp: list_all_iff isdigit_facts)
  show "strip ds = ds"
    using strip_unique [OF assms(1) l, of "[]"] assms(2)
    by (simp add: strip_def isdigit_not_space_hd)
  have "\<not> isspace (last (CHR ''-'' # ds))" using l assms(1) by simp
  then show "strip (CHR ''-'' # ds) = CHR ''-'' # ds"
    using strip_unique [of "CHR ''-'' # ds" "[]"] by (simp add: strip_def)
qed

lemma groups_ok_digits:
  assumes "ds \<noteq> []" "list_all isdigit ds"
  shows "groups_ok ds"
proof -
  have "CHR ''_'' \<notin> set ds"
    using assms(2) by (auto simp: list_all_iff isdigit_facts)
  then show ?thesis using assms by (simp add: groups_ok_def str_split_no_sep)
qed

lemma unsigned_digits: "ds \<noteq> [] \<Longrightarrow> list_all isdigit ds \<Longrightarrow> unsigned ds = ds"
  by (cases ds) (auto simp: unsigned_def isdigit_facts)

lemma literal_digits_digits:
  assumes "ds \<noteq> []" "list_all isdigit ds"
  shows "literal_digits ds = length ds" "literal_digits (CHR ''-'' # ds) = length ds"
proof -
  have f: "filter isdigit ds = ds" using assms(2) by (simp add: list_all_iff)
  show "literal_digits ds = length ds"
    by (simp add: literal_digits_def strip_digits [OF assms] f)
  show "literal_digits (CHR ''-'' # ds) = length ds"
    by (simp add: literal_digits_def strip_digits [OF assms] f)
qed

lemma int_of_str_digits:
  assumes "ds \<noteq> []" "list_all isdigit ds"
  shows "int_of_str ds =
      (if length ds \<le> max_str_digits then Inr (int (digits_value ds)) else Inl ValueError)"
    and "int_of_str (CHR ''-'' # ds) =
      (if length ds \<le> max_str_digits then Inr (- int (digits_value ds)) else Inl ValueError)"
proof -
  have f: "filter isdigit ds = ds" using assms(2) by (simp add: list_all_iff)
  have h: "hd ds \<noteq> CHR ''-''" using assms by (cases ds) (auto simp: isdigit_facts)
  have "integer_literal ds"
    using groups_ok_digits [OF assms]
    by (simp add: integer_literal_def strip_digits [OF assms] unsigned_digits [OF assms])
  then show "int_of_str ds =
      (if length ds \<le> max_str_digits then Inr (int (digits_value ds)) else Inl ValueError)"
    by (simp add: int_of_str_literal literal_value_def literal_digits_digits [OF assms]
        strip_digits [OF assms] f h)
  have "integer_literal (CHR ''-'' # ds)"
    using groups_ok_digits [OF assms]
    by (simp add: integer_literal_def strip_digits [OF assms] unsigned_def)
  then show "int_of_str (CHR ''-'' # ds) =
      (if length ds \<le> max_str_digits then Inr (- int (digits_value ds)) else Inl ValueError)"
    by (simp add: int_of_str_literal literal_value_def literal_digits_digits [OF assms]
        strip_digits [OF assms] f)
qed

lemma length_str_nat: "n < 10 ^ k \<Longrightarrow> 0 < k \<Longrightarrow> length (str_nat n) \<le> k"
proof (induction n arbitrary: k rule: str_nat.induct)
  case (1 n)
  show ?case
  proof (cases "n < 10")
    case True
    then show ?thesis using "1.prems"(2) by (subst str_nat.simps) simp
  next
    case False
    obtain j where k: "k = Suc j" using "1.prems"(2) by (cases k) auto
    have "j \<noteq> 0" using False "1.prems"(1) k by (cases j) auto
    moreover have "n div 10 < 10 ^ j"
      using "1.prems"(1) k by (simp add: less_mult_imp_div_less mult.commute)
    ultimately have "length (str_nat (n div 10)) \<le> j"
      using "1.IH" [OF False, of j] by simp
    then show ?thesis using False k by (subst str_nat.simps) simp
  qed
qed

lemma length_str_nat_abs:
  assumes "\<bar>n\<bar> < 10 ^ max_str_digits"
  shows "length (str_nat (nat \<bar>n\<bar>)) \<le> max_str_digits"
proof -
  have "int (nat \<bar>n\<bar>) < int (10 ^ max_str_digits)" using assms by simp
  then have "nat \<bar>n\<bar> < 10 ^ max_str_digits" by (simp only: of_nat_less_iff)
  then show ?thesis by (rule length_str_nat) (simp add: max_str_digits_def)
qed

lemma int_of_str_str:
  assumes "\<bar>n\<bar> < 10 ^ max_str_digits"
  shows "int_of_str (str n) = Inr n"
proof (cases "n < 0")
  case True
  then have "length (str_nat (nat (- n))) \<le> max_str_digits"
    using length_str_nat_abs [OF assms] by simp
  then show ?thesis
    using True int_of_str_digits(2) [OF str_nat_nonempty str_nat_digits, of "nat (- n)"]
    by (simp add: str_def digits_value_str_nat)
next
  case False
  then have "length (str_nat (nat n)) \<le> max_str_digits"
    using length_str_nat_abs [OF assms] by simp
  then show ?thesis
    using False int_of_str_digits(1) [OF str_nat_nonempty str_nat_digits, of "nat n"]
    by (simp add: str_def digits_value_str_nat)
qed

lemma str_nat_inject:
  assumes "str_nat m = str_nat n"
  shows "m = n"
proof -
  have "m = digits_value (str_nat m)" by (simp only: digits_value_str_nat)
  also have "\<dots> = digits_value (str_nat n)" by (simp only: assms)
  also have "\<dots> = n" by (simp only: digits_value_str_nat)
  finally show ?thesis .
qed

lemma str_nat_no_sign: "str_nat m \<noteq> CHR ''-'' # cs"
proof
  assume "str_nat m = CHR ''-'' # cs"
  then have "isdigit CHR ''-''"
    using str_nat_digits [of m] by simp
  then show False by simp
qed

lemma str_inject:
  assumes "str m = str n"
  shows "m = n"
proof (cases "m < 0")
  case mneg: True
  show ?thesis
  proof (cases "n < 0")
    case True
    then have "nat (- m) = nat (- n)"
      using assms mneg str_nat_inject by (simp add: str_def)
    then show ?thesis using mneg True by simp
  next
    case False
    then show ?thesis
      using assms mneg str_nat_no_sign [of "nat n" "str_nat (nat (- m))"] by (simp add: str_def)
  qed
next
  case mpos: False
  show ?thesis
  proof (cases "n < 0")
    case True
    then show ?thesis
      using assms mpos str_nat_no_sign [of "nat m" "str_nat (nat (- n))"] by (simp add: str_def)
  next
    case False
    then have "nat m = nat n"
      using assms mpos str_nat_inject by (simp add: str_def)
    then show ?thesis using mpos False by simp
  qed
qed

lemma digit_char_examples: "digit_char 0 = CHR ''0''" "digit_char (Suc 0) = CHR ''1''"
  by code_simp+

lemma str_nat_power10: "str_nat (10 ^ k) = CHR ''1'' # replicate k CHR ''0''"
proof (induction k)
  case 0
  show ?case by (subst str_nat.simps) (simp add: digit_char_examples)
next
  case (Suc k)
  have "\<not> (10 :: nat) ^ Suc k < 10" by simp
  then have "str_nat (10 ^ Suc k) = str_nat (10 ^ Suc k div 10) @ [digit_char (10 ^ Suc k mod 10)]"
    by (subst str_nat.simps) (simp only: if_False)
  also have "\<dots> = str_nat (10 ^ k) @ [CHR ''0'']"
    by (simp add: digit_char_examples)
  also have "\<dots> = CHR ''1'' # replicate (Suc k) CHR ''0''"
    by (simp add: Suc replicate_append_same)
  finally show ?case .
qed

lemma str_power10: "str (10 ^ k) = CHR ''1'' # replicate k CHR ''0''"
proof -
  have n: "nat (10 ^ k) = 10 ^ k"
    by (simp add: nat_power_eq)
  have "str (10 ^ k) = str_nat (nat (10 ^ k))"
    by (simp add: str_def)
  also have "\<dots> = CHR ''1'' # replicate k CHR ''0''"
    unfolding n by (rule str_nat_power10)
  finally show ?thesis .
qed

lemma str_chars: "c \<in> set (str n) \<Longrightarrow> isdigit c \<or> c = CHR ''-''"
  using str_nat_digits by (auto simp: str_def list_all_iff split: if_splits)

text \<open>The shape of a link with a second segment and a value in it.\<close>

lemma takeWhile_until:
  "sep \<notin> set v \<Longrightarrow> rest = [] \<or> hd rest = sep \<Longrightarrow>
   takeWhile (\<lambda>c. c \<noteq> sep) (v @ rest) = v"
  by (induction v) (cases rest; auto)+

lemma second_segment:
  assumes "CHR ''&'' \<notin> set p" "CHR ''&'' \<notin> set seg" "rest = [] \<or> hd rest = CHR ''&''"
  shows "index (str_split CHR ''&'' (p @ CHR ''&'' # seg @ rest)) 1 = Inr seg"
proof -
  have "takeWhile (\<lambda>c. c \<noteq> CHR ''&'') (seg @ rest) = seg"
    by (rule takeWhile_until [OF assms(2,3)])
  then have "hd (str_split CHR ''&'' (seg @ rest)) = seg"
    by (simp add: hd_str_split)
  moreover have "str_split CHR ''&'' (seg @ rest) \<noteq> []" by simp
  ultimately have "\<exists>ws. str_split CHR ''&'' (seg @ rest) = seg # ws"
    by (cases "str_split CHR ''&'' (seg @ rest)") auto
  then show ?thesis
    using str_split_cut [OF assms(1), of "seg @ rest"] by (auto simp: index_def)
qed

lemma few_segments:
  "CHR ''&'' \<notin> set prd_url \<Longrightarrow> extract_drug_id prd_url = Inl IndexError"
  by (simp add: extract_drug_id_def str_split_no_sep index_def)

lemma segment_without_value:
  assumes "CHR ''&'' \<notin> set p" "CHR ''&'' \<notin> set seg" "rest = [] \<or> hd rest = CHR ''&''"
    "CHR ''='' \<notin> set seg"
  shows "extract_drug_id (p @ CHR ''&'' # seg @ rest) = Inl IndexError"
  using second_segment [OF assms(1-3)] assms(4)
  by (simp add: extract_drug_id_def str_split_no_sep index_def)

lemma segment_value:
  assumes "CHR ''&'' \<notin> set p" "CHR ''&'' \<notin> set k" "CHR ''='' \<notin> set k"
    "CHR ''&'' \<notin> set v" "CHR ''='' \<notin> set v"
    "rest = [] \<or> hd rest = CHR ''&'' \<or> hd rest = CHR ''=''"
  shows "extract_drug_id (p @ CHR ''&'' # k @ CHR ''='' # v @ rest) = int_of_str v"
proof -
  define r1 where "r1 = takeWhile (\<lambda>c. c \<noteq> CHR ''&'') rest"
  define r2 where "r2 = dropWhile (\<lambda>c. c \<noteq> CHR ''&'') rest"
  have rest: "rest = r1 @ r2" by (simp add: r1_def r2_def)
  have r1: "CHR ''&'' \<notin> set r1" by (auto simp: r1_def dest: set_takeWhileD)
  have r2: "r2 = [] \<or> hd r2 = CHR ''&''"
    unfolding r2_def using hd_dropWhile [of "\<lambda>c. c \<noteq> CHR ''&''" rest] by auto
  have r1': "r1 = [] \<or> hd r1 = CHR ''=''"
    using assms(6) by (cases rest) (auto simp: r1_def)
  have amp: "CHR ''&'' \<notin> set (k @ CHR ''='' # v @ r1)"
    using assms(2,4) r1 by simp
  have seg: "index (str_split CHR ''&'' (p @ CHR ''&'' # (k @ CHR ''='' # v @ r1) @ r2)) 1
      = Inr (k @ CHR ''='' # v @ r1)"
    by (rule second_segment [OF assms(1) amp r2])
  have "takeWhile (\<lambda>c. c \<noteq> CHR ''='') (v @ r1) = v"
    by (rule takeWhile_until [OF assms(5) r1'])
  then have "hd (str_split CHR ''='' (v @ r1)) = v"
    by (simp add: hd_str_split)
  moreover have "str_split CHR ''='' (v @ r1) \<noteq> []" by simp
  ultimately have "\<exists>ws. str_split CHR ''='' (v @ r1) = v # ws"
    by (cases "str_split CHR ''='' (v @ r1)") auto
  then have val: "index (str_split CHR ''='' (k @ CHR ''='' # v @ r1)) 1 = Inr v"
    using str_split_cut [OF assms(3), of "v @ r1"] by (auto simp: index_def)
  show ?thesis
    using seg val by (simp add: extract_drug_id_def rest)
qed

lemma extract_drug_id_str:
  assumes "CHR ''&'' \<notin> set p" "CHR ''&'' \<notin> set k" "CHR ''='' \<notin> set k"
    "rest = [] \<or> hd rest = CHR ''&'' \<or> hd rest = CHR ''=''"
    "\<bar>n\<bar> < 10 ^ max_str_digits"
  shows "extract_drug_id (p @ CHR ''&'' # k @ CHR ''='' # str n @ rest) = Inr n"
proof -
  have "CHR ''&'' \<notin> set (str n)" "CHR ''='' \<notin> set (str n)"
    using str_chars [of _ n] isdigit_facts(5,6) by auto
  then have "extract_drug_id (p @ CHR ''&'' # k @ CHR ''='' # str n @ rest) = int_of_str (str n)"
    using assms(1-4) by (intro segment_value) auto
  then show ?thesis
    by (simp only: int_of_str_str [OF assms(5)])
qed

text \<open>The links of the examples.\<close>

lemma str_examples: "str 42 = ''42''" "str 7 = ''7''"
  by code_simp+

lemma small_identifier: "\<bar>n\<bar> < 100 \<Longrightarrow> \<bar>n :: int\<bar> < 10 ^ max_str_digits"
proof -
  assume "\<bar>n\<bar> < 100"
  moreover have "(10 :: int) ^ 2 \<le> 10 ^ max_str_digits"
    by (rule power_increasing) (simp_all add: max_str_digits_def)
  ultimately show ?thesis by simp
qed

lemma extract_examples:
  "extract_drug_id ''http://x/y&id=42&z=1'' = Inr 42"
  "extract_drug_id ''http://x/y&id=42&z=2'' = Inr 42"
  "extract_drug_id ''http://x/y&id=7&z=9'' = Inr 7"
  using extract_drug_id_str [of "''http://x/y''" "''id''" "''&z=1''" 42]
    extract_drug_id_str [of "''http://x/y''" "''id''" "''&z=2''" 42]
    extract_drug_id_str [of "''http://x/y''" "''id''" "''&z=9''" 7]
    small_identifier [of 42] small_identifier [of 7]
  by (simp_all add: str_examples)

section \<open>Properties of dictionaries and of the catalog loop\<close>

lemma map_of_dict_set: "map_of (dict_set k v d) = (map_of d)(k \<mapsto> v)"
  by (induction d) (auto simp: fun_eq_iff)

lemma keys_dict_set:
  "keys (dict_set k v d) = (if k \<in> set (keys d) then keys d else keys d @ [k])"
  by (induction d) (auto simp: keys_def)

lemma distinct_dict_set: "distinct (keys d) \<Longrightarrow> distinct (keys (dict_set k v d))"
  by (simp add: keys_dict_set)

lemma single_entry:
  "distinct (keys d) \<Longrightarrow> map_of d k = Some v \<Longrightarrow> filter (\<lambda>kv. fst kv = k) d = [(k, v)]"
proof (induction d)
  case Nil
  then show ?case by simp
next
  case (Cons kv d)
  show ?case
  proof (cases "fst kv = k")
    case True
    have "k \<notin> fst ` set d"
      using Cons.prems(1) True by (simp add: keys_def)
    then have "\<forall>x\<in>set d. fst x \<noteq> k" by (metis imageI)
    then have "filter (\<lambda>kv. fst kv = k) d = []"
      by (simp add: filter_empty_conv)
    then show ?thesis using True Cons.prems(2) by (cases kv) auto
  next
    case False
    then show ?thesis using Cons by (auto simp: keys_def)
  qed
qed

lemma dict_get_keys: "k \<in> set (keys d) \<Longrightarrow> \<exists>v. dict_get d k = Inr v \<and> map_of d k = Some v"
  by (cases "map_of d k") (auto simp: dict_get_def keys_def map_of_eq_None_iff)

lemma load_rows_append:
  "load_rows (xs @ ys) s = (case load_rows xs s of Inl e \<Rightarrow> Inl e | Inr s' \<Rightarrow> load_rows ys s')"
proof (induction xs arbitrary: s)
  case Nil
  show ?case by simp
next
  case (Cons r xs)
  obtain dl da c where s: "s = (dl, da, c)" by (cases s) auto
  show ?case using Cons by (simp add: s split: sum.splits)
qed

lemma load_rows_keys:
  "load_rows rs (dl, da, c) = Inr (dl', da', c') \<Longrightarrow> keys dl = keys da \<Longrightarrow> keys dl' = keys da'"
proof (induction rs arbitrary: dl da c)
  case Nil
  then show ?case by simp
next
  case (Cons r rs)
  from Cons.prems(1) obtain d where d: "extract_drug_id (link r) = Inr d"
    and rest: "load_rows rs (dict_set d (link r) dl, dict_set d (application_number r) da, c + 1)
               = Inr (dl', da', c')"
    by (auto split: sum.splits)
  have "keys (dict_set d (link r) dl) = keys (dict_set d (application_number r) da)"
    using Cons.prems(2) by (simp add: keys_dict_set)
  then show ?case using Cons.IH [OF rest] by simp
qed

lemma load_rows_distinct:
  "load_rows rs (dl, da, c) = Inr (dl', da', c') \<Longrightarrow> distinct (keys dl) \<Longrightarrow> distinct (keys dl')"
proof (induction rs arbitrary: dl da c)
  case Nil
  then show ?case by simp
next
  case (Cons r rs)
  from Cons.prems(1) obtain d where d: "extract_drug_id (link r) = Inr d"
    and rest: "load_rows rs (dict_set d (link r) dl, dict_set d (application_number r) da, c + 1)
               = Inr (dl', da', c')"
    by (auto split: sum.splits)
  show ?case using Cons.IH [OF rest] Cons.prems(2) by (simp add: distinct_dict_set)
qed

lemma load_rows_total:
  "\<forall>r\<in>set rs. \<exists>n. extract_drug_id (link r) = Inr n \<Longrightarrow>
   \<exists>dl' da'. load_rows rs (dl, da, c) = Inr (dl', da', c + length rs)"
proof (induction rs arbitrary: dl da c)
  case Nil
  show ?case by simp
next
  case (Cons r rs)
  then obtain d where d: "extract_drug_id (link r) = Inr d" by auto
  have "\<forall>r\<in>set rs. \<exists>n. extract_drug_id (link r) = Inr n" using Cons.prems by simp
  from Cons.IH [OF this, of "dict_set d (link r) dl" "dict_set d (application_number r) da" "c + 1"]
  show ?case using d by simp
qed

lemma load_rows_fails:
  "r \<in> set rs \<Longrightarrow> extract_drug_id (link r) = Inl e \<Longrightarrow> \<exists>e'. load_rows rs s = Inl e'"
proof (induction rs arbitrary: s)
  case Nil
  then show ?case by simp
next
  case (Cons x rs)
  obtain dl da c where s: "s = (dl, da, c)" by (cases s) auto
  show ?case
  proof (cases "extract_drug_id (link x)")
    case (Inl a)
    then show ?thesis by (simp add: s)
  next
    case (Inr d)
    then have "r \<in> set rs" using Cons.prems by auto
    then show ?thesis using Cons.IH Cons.prems(2) Inr by (simp add: s)
  qed
qed

lemma load_rows_untouched:
  "load_rows rs (dl, da, c) = Inr (dl', da', c') \<Longrightarrow>
   \<forall>r\<in>set rs. extract_drug_id (link r) \<noteq> Inr d \<Longrightarrow>
   map_of dl' d = map_of dl d \<and> map_of da' d = map_of da d"
proof (induction rs arbitrary: dl da c)
  case Nil
  then show ?case by simp
next
  case (Cons r rs)
  from Cons.prems(1) obtain k where k: "extract_drug_id (link r) = Inr k"
    and rest: "load_rows rs (dict_set k (link r) dl, dict_set k (application_number r) da, c + 1)
               = Inr (dl', da', c')"
    by (auto split: sum.splits)
  have "k \<noteq> d" using Cons.prems(2) k by auto
  then show ?case using Cons.IH [OF rest] Cons.prems(2) by (simp add: map_of_dict_set)
qed

lemma load_rows_last:
  "load_rows rs (dl, da, c) = Inr (dl', da', c') \<Longrightarrow> j < length rs \<Longrightarrow>
   extract_drug_id (link (rs ! j)) = Inr d \<Longrightarrow>
   \<forall>r\<in>set (drop (Suc j) rs). extract_drug_id (link r) \<noteq> Inr d \<Longrightarrow>
   map_of dl' d = Some (link (rs ! j)) \<and> map_of da' d = Some (application_number (rs ! j))"
proof (induction rs arbitrary: dl da c j)
  case Nil
  then show ?case by simp
next
  case (Cons r rs)
  from Cons.prems(1) obtain k where k: "extract_drug_id (link r) = Inr k"
    and rest: "load_rows rs (dict_set k (link r) dl, dict_set k (application_number r) da, c + 1)
               = Inr (dl', da', c')"
    by (auto split: sum.splits)
  show ?case
  proof (cases j)
    case 0
    then have kd: "k = d" using Cons.prems(3) k by simp
    have "\<forall>x\<in>set rs. extract_drug_id (link x) \<noteq> Inr d"
      using Cons.prems(4) 0 by simp
    then show ?thesis
      using load_rows_untouched [OF rest] kd 0 by (simp add: map_of_dict_set)
  next
    case (Suc j')
    then show ?thesis
      using Cons.IH [OF rest, of j'] Cons.prems(2,3,4) by simp
  qed
qed

lemma extract_drug_id_errors:
  "extract_drug_id l = Inl e \<Longrightarrow> e = IndexError \<or> e = ValueError"
  by (auto simp: extract_drug_id_def index_def int_of_str_literal split: sum.splits if_splits)

lemma load_rows_errors: "load_rows rs s = Inl e \<Longrightarrow> e = IndexError \<or> e = ValueError"
proof (induction rs arbitrary: s)
  case Nil
  then show ?case by simp
next
  case (Cons r rs)
  obtain dl da c where s: "s = (dl, da, c)" by (cases s) auto
  show ?case
    using Cons extract_drug_id_errors [of "link r" e] by (auto simp: s split: sum.splits)
qed

lemma malformed_fails: "malformed l \<Longrightarrow> \<exists>e. extract_drug_id l = Inl e"
  by (auto simp: malformed_def Let_def extract_drug_id_def index_def int_of_str_literal
      split: if_splits)

text \<open>The catalog of the examples: two rows share the identifier 42.\<close>

lemma load_catalog_example:
  "load_catalog [\<lparr>application_number = ''A1'', link = ''http://x/y&id=42&z=1''\<rparr>,
                 \<lparr>application_number = ''A2'', link = ''http://x/y&id=42&z=2''\<rparr>,
                 \<lparr>application_number = ''A3'', link = ''http://x/y&id=7&z=9''\<rparr>]
     = Inr ([(42, ''http://x/y&id=42&z=2''), (7, ''http://x/y&id=7&z=9'')],
            [(42, ''A2''), (7, ''A3'')], 3)"
  by (simp add: load_catalog_def extract_examples)

lemma listdir_examples:
  "listdir DATA_PATH [(DATA_PATH @ ''notes.txt'', ''x''), (DATA_PATH @ ''old/7.html'', ''y'')]
     = [''notes.txt'', ''old'']"
  "listdir DATA_PATH [(DATA_PATH @ ''42.html'', ''x''), (DATA_PATH @ ''7.html'', ''y'')]
     = [''42.html'', ''7.html'']"
  by (simp_all add: listdir_def keys_def)

section \<open>Properties of the events and of \<^verbatim>\<open>download_file\<close>\<close>

lemma printed_simps [simp]:
  "printed [] = []"
  "printed (Print s # es) = s # printed es"
  "printed (HttpGet u # es) = printed es"
  "printed (FileOpen f # es) = printed es"
  "printed (ChunkRead c # es) = printed es"
  "printed (FileWrite f c # es) = printed es"
  "printed (FileClose f # es) = printed es"
  "printed (Sleep d # es) = printed es"
  "printed (xs @ ys) = printed xs @ printed ys"
  by (simp_all add: printed_def)

lemma opened_simps [simp]:
  "opened [] = []"
  "opened (Print s # es) = opened es"
  "opened (HttpGet u # es) = opened es"
  "opened (FileOpen f # es) = f # opened es"
  "opened (ChunkRead c # es) = opened es"
  "opened (FileWrite f c # es) = opened es"
  "opened (FileClose f # es) = opened es"
  "opened (Sleep d # es) = opened es"
  "opened (xs @ ys) = opened xs @ opened ys"
  by (simp_all add: opened_def)

lemma requested_simps [simp]:
  "requested [] = []"
  "requested (Print s # es) = requested es"
  "requested (HttpGet u # es) = u # requested es"
  "requested (FileOpen f # es) = requested es"
  "requested (ChunkRead c # es) = requested es"
  "requested (FileWrite f c # es) = requested es"
  "requested (FileClose f # es) = requested es"
  "requested (Sleep d # es) = requested es"
  "requested (xs @ ys) = requested xs @ requested ys"
  by (simp_all add: requested_def)

lemma written_simps [simp]:
  "written [] = []"
  "written (Print s # es) = written es"
  "written (HttpGet u # es) = written es"
  "written (FileOpen f # es) = written es"
  "written (ChunkRead c # es) = written es"
  "written (FileWrite f c # es) = (f, c) # written es"
  "written (FileClose f # es) = written es"
  "written (Sleep d # es) = written es"
  "written (xs @ ys) = written xs @ written ys"
  by (simp_all add: written_def)

lemma chunk_events_simps [simp]:
  "chunk_events f [] = []"
  "chunk_events f (c # cs) =
     (if c \<noteq> [] then ChunkRead c # FileWrite f c # chunk_events f cs
      else ChunkRead c # chunk_events f cs)"
  by (simp_all add: chunk_events_def)

lemma chunk_events_filters [simp]:
  "printed (chunk_events f cs) = []"
  "opened (chunk_events f cs) = []"
  "requested (chunk_events f cs) = []"
  "written (chunk_events f cs) = map (Pair f) (filter (\<lambda>c. c \<noteq> []) cs)"
  by (induction cs) auto

lemma chunk_events_file: "e \<in> set (chunk_events f cs) \<Longrightarrow> is_file_event e"
  by (induction cs) (auto split: if_splits)

lemma concat_nonempty: "concat (filter (\<lambda>c. c \<noteq> []) cs) = concat cs"
  by (induction cs) auto

lemma write_chunks_result:
  "map_of fs f = Some old \<Longrightarrow>
   \<exists>fs'. write_chunks f chunks fs = (chunk_events f chunks, fs')
     \<and> map_of fs' = (map_of fs)(f \<mapsto> old @ concat chunks)
     \<and> set (keys fs') = set (keys fs)"
proof (induction chunks arbitrary: fs old)
  case Nil
  then show ?case by (auto simp: fun_eq_iff)
next
  case (Cons c cs)
  show ?case
  proof (cases "c = []")
    case True
    then show ?thesis using Cons.IH [OF Cons.prems] by auto
  next
    case False
    have m: "map_of (file_write f c fs) f = Some (old @ c)"
      using Cons.prems by (simp add: file_write_def map_of_dict_set)
    have "f \<in> set (keys fs)"
      using Cons.prems by (force simp: keys_def dest: map_of_SomeD)
    then have k: "set (keys (file_write f c fs)) = set (keys fs)"
      by (simp add: file_write_def keys_dict_set)
    obtain fs' where "write_chunks f cs (file_write f c fs) = (chunk_events f cs, fs')"
      and "map_of fs' = (map_of (file_write f c fs))(f \<mapsto> (old @ c) @ concat cs)"
      and "set (keys fs') = set (keys (file_write f c fs))"
      using Cons.IH [OF m] by blast
    then show ?thesis
      using False Cons.prems k by (auto simp: file_write_def map_of_dict_set fun_eq_iff)
  qed
qed

lemma download_file_connected:
  assumes "net url = Some r" "r 1024 = (chunks, ended)"
  shows "\<exists>fs'. download_file net url f fs =
           (if ended then Inr f else Inl ConnectionError,
            HttpGet url # FileOpen f # chunk_events f chunks @ [FileClose f], fs')
         \<and> map_of fs' = (map_of fs)(f \<mapsto> concat chunks)
         \<and> set (keys fs') = insert f (set (keys fs))"
proof -
  have m: "map_of (open_wb f fs) f = Some []"
    by (simp add: open_wb_def map_of_dict_set)
  obtain fs' where w: "write_chunks f chunks (open_wb f fs) = (chunk_events f chunks, fs')"
    and c: "map_of fs' = (map_of (open_wb f fs))(f \<mapsto> [] @ concat chunks)"
    and k: "set (keys fs') = set (keys (open_wb f fs))"
    using write_chunks_result [OF m] by blast
  have "set (keys (open_wb f fs)) = insert f (set (keys fs))"
    by (auto simp: open_wb_def keys_dict_set)
  then show ?thesis
    using assms w c k by (simp add: download_file_def open_wb_def map_of_dict_set)
qed

lemma download_file_refused:
  "net url = None \<Longrightarrow> download_file net url f fs = (Inl ConnectionError, [HttpGet url], fs)"
  by (simp add: download_file_def)

section \<open>Properties of the download loop\<close>

lemma out_path_inject: "out_path a = out_path b \<Longrightarrow> a = b"
  by (simp add: out_path_def str_inject)

lemma dict_get_entry:
  "distinct (keys d) \<Longrightarrow> kv \<in> set d \<Longrightarrow> dict_get d (fst kv) = Inr (snd kv)"
  by (cases kv) (simp add: dict_get_def keys_def)

lemma milestone_filters [simp]:
  "printed (milestone k) = (if k mod 100 = 0 then [''>> '' @ str (int k)] else [])"
  "opened (milestone k) = []" "requested (milestone k) = []" "written (milestone k) = []"
  by (simp_all add: milestone_def)

text \<open>One turn of the download loop, by the outcome of the request.\<close>

lemma fetch_loop_refused:
  assumes "dict_get dl d = Inr url" "net url = None"
  shows "fetch_loop net dl (d # ids) c fs = (Inl ConnectionError, [HttpGet url], fs)"
  using assms by (simp add: download_file_refused)

lemma fetch_loop_broken:
  assumes "dict_get dl d = Inr url" "net url = Some r" "r 1024 = (chunks, False)"
  shows "\<exists>fs1. fetch_loop net dl (d # ids) c fs =
           (Inl ConnectionError,
            HttpGet url # FileOpen (out_path d) # chunk_events (out_path d) chunks
              @ [FileClose (out_path d)], fs1)"
proof -
  obtain fs1 where "download_file net url (out_path d) fs =
      (Inl ConnectionError,
       HttpGet url # FileOpen (out_path d) # chunk_events (out_path d) chunks
         @ [FileClose (out_path d)], fs1)"
    using download_file_connected [of net url r chunks False "out_path d" fs] assms(2,3)
    by auto
  then show ?thesis using assms(1) by (simp add: out_path_def)
qed

lemma fetch_loop_saved:
  assumes "dict_get dl d = Inr url" "net url = Some r" "r 1024 = (chunks, True)"
  shows "\<exists>fs1. map_of fs1 = (map_of fs)(out_path d \<mapsto> concat chunks)
     \<and> fetch_loop net dl (d # ids) c fs =
         (case fetch_loop net dl ids (Suc c) fs1 of
            (res, evs', fs2) \<Rightarrow>
              (res,
               HttpGet url # FileOpen (out_path d) # chunk_events (out_path d) chunks
                 @ [FileClose (out_path d), Print (progress_line d url), Sleep WAIT_TIME]
                 @ milestone (Suc c) @ evs',
               fs2))"
proof -
  obtain fs1 where d: "download_file net url (out_path d) fs =
      (Inr (out_path d),
       HttpGet url # FileOpen (out_path d) # chunk_events (out_path d) chunks
         @ [FileClose (out_path d)], fs1)"
    and m: "map_of fs1 = (map_of fs)(out_path d \<mapsto> concat chunks)"
    using download_file_connected [of net url r chunks True "out_path d" fs] assms(2,3)
    by auto
  have "fetch_loop net dl (d # ids) c fs =
         (case fetch_loop net dl ids (Suc c) fs1 of
            (res, evs', fs2) \<Rightarrow>
              (res,
               HttpGet url # FileOpen (out_path d) # chunk_events (out_path d) chunks
                 @ [FileClose (out_path d), Print (progress_line d url), Sleep WAIT_TIME]
                 @ milestone (Suc c) @ evs',
               fs2))"
    using assms(1) d [unfolded out_path_def] by (simp add: out_path_def split: prod.splits)
  then show ?thesis using m by blast
qed

lemma fetch_loop_cases:
  assumes "dict_get dl d = Inr url"
  obtains (refused) "net url = None"
    "fetch_loop net dl (d # ids) c fs = (Inl ConnectionError, [HttpGet url], fs)"
  | (broken) chunks fs1 where
    "fetch_loop net dl (d # ids) c fs =
           (Inl ConnectionError,
            HttpGet url # FileOpen (out_path d) # chunk_events (out_path d) chunks
              @ [FileClose (out_path d)], fs1)"
  | (saved) r chunks fs1 res evs' fs2 where "net url = Some r" "r 1024 = (chunks, True)"
    "map_of fs1 = (map_of fs)(out_path d \<mapsto> concat chunks)"
    "fetch_loop net dl ids (Suc c) fs1 = (res, evs', fs2)"
    "fetch_loop net dl (d # ids) c fs =
       (res,
        HttpGet url # FileOpen (out_path d) # chunk_events (out_path d) chunks
          @ [FileClose (out_path d), Print (progress_line d url), Sleep WAIT_TIME]
          @ milestone (Suc c) @ evs',
        fs2)"
proof (cases "net url")
  case None
  then show ?thesis
    using refused fetch_loop_refused [where dl = dl and d = d and url = url and net = net] assms
    by blast
next
  case (Some r)
  obtain chunks ended where r: "r 1024 = (chunks, ended)" by (cases "r 1024") auto
  show ?thesis
  proof (cases ended)
    case False
    then have r': "r 1024 = (chunks, False)" using r by simp
    show ?thesis
      using broken fetch_loop_broken [where dl = dl and d = d and url = url and net = net
          and r = r and chunks = chunks and ids = ids and c = c and fs = fs] assms Some r'
      by blast
  next
    case True
    then have r': "r 1024 = (chunks, True)" using r by simp
    obtain fs1 where m: "map_of fs1 = (map_of fs)(out_path d \<mapsto> concat chunks)"
      and f: "fetch_loop net dl (d # ids) c fs =
         (case fetch_loop net dl ids (Suc c) fs1 of
            (res, evs', fs2) \<Rightarrow>
              (res,
               HttpGet url # FileOpen (out_path d) # chunk_events (out_path d) chunks
                 @ [FileClose (out_path d), Print (progress_line d url), Sleep WAIT_TIME]
                 @ milestone (Suc c) @ evs',
               fs2))"
      using fetch_loop_saved [where dl = dl and d = d and url = url and net = net
          and r = r and chunks = chunks and ids = ids and c = c and fs = fs] assms Some r'
      by blast
    obtain res evs' fs2 where rec: "fetch_loop net dl ids (Suc c) fs1 = (res, evs', fs2)"
      by (rule prod_cases3)
    show ?thesis
      using saved [of r chunks fs1 res evs' fs2] Some m rec r' f by simp
  qed
qed

lemma loop_lines_simps [simp]:
  "loop_lines [] = []"
  "loop_lines ((k, d, url) # rest) =
     progress_line d url # (if k mod 100 = 0 then [''>> '' @ str (int k)] else []) @ loop_lines rest"
  by (simp_all add: loop_lines_def)

lemma fetch_loop_lines:
  assumes "\<forall>kv\<in>set kvs. dict_get dl (fst kv) = Inr (snd kv)"
    and "fetch_loop net dl (map fst kvs) c fs = (res, evs, fs')"
  shows "\<exists>m\<le>length kvs. printed evs = loop_lines (enumerate (Suc c) (take m kvs))
     \<and> (case res of
          Inr c' \<Rightarrow> m = length kvs \<and> c' = c + m \<and> requested evs = map snd kvs
        | Inl e \<Rightarrow> m < length kvs \<and> e = ConnectionError
                   \<and> requested evs = map snd (take (Suc m) kvs))"
  using assms
proof (induction kvs arbitrary: c fs res evs fs')
  case Nil
  then show ?case by auto
next
  case (Cons kv kvs)
  obtain d url where kv: "kv = (d, url)" by (cases kv) auto
  have get: "dict_get dl d = Inr url" using Cons.prems(1) kv by simp
  have run: "fetch_loop net dl (d # map fst kvs) c fs = (res, evs, fs')"
    using Cons.prems(2) kv by simp
  from get show ?case
  proof (cases rule: fetch_loop_cases [where net = net and ids = "map fst kvs" and c = c and fs = fs])
    case refused
    then have "res = Inl ConnectionError" "evs = [HttpGet url]" using run by auto
    then show ?thesis by (intro exI [of _ 0]) (simp add: kv)
  next
    case (broken chunks fs1)
    then have "res = Inl ConnectionError"
      "evs = HttpGet url # FileOpen (out_path d) # chunk_events (out_path d) chunks
              @ [FileClose (out_path d)]"
      using run by auto
    then show ?thesis by (intro exI [of _ 0]) (simp add: kv)
  next
    case (saved r chunks fs1 res1 evs1 fs2)
    have res: "res = res1" and evs: "evs =
        HttpGet url # FileOpen (out_path d) # chunk_events (out_path d) chunks
          @ [FileClose (out_path d), Print (progress_line d url), Sleep WAIT_TIME]
          @ milestone (Suc c) @ evs1"
      using saved(5) run by auto
    have "\<forall>kv\<in>set kvs. dict_get dl (fst kv) = Inr (snd kv)" using Cons.prems(1) by simp
    from Cons.IH [OF this saved(4)]
    obtain m where m: "m \<le> length kvs"
      "printed evs1 = loop_lines (enumerate (Suc (Suc c)) (take m kvs))"
      "case res1 of
          Inr c' \<Rightarrow> m = length kvs \<and> c' = Suc c + m \<and> requested evs1 = map snd kvs
        | Inl e \<Rightarrow> m < length kvs \<and> e = ConnectionError
                   \<and> requested evs1 = map snd (take (Suc m) kvs)"
      by blast
    show ?thesis
      using m by (intro exI [of _ "Suc m"]) (auto simp: kv res evs split: sum.splits)
  qed
qed

lemma fetch_loop_files:
  assumes "\<forall>kv\<in>set kvs. dict_get dl (fst kv) = Inr (snd kv)"
    and "distinct (map fst kvs)"
    and "fetch_loop net dl (map fst kvs) c fs = (Inr c', evs, fs')"
  shows "opened evs = map out_path (map fst kvs)
     \<and> fst ` set (written evs) \<subseteq> out_path ` set (map fst kvs)
     \<and> (\<forall>kv\<in>set kvs. \<exists>r chunks. net (snd kv) = Some r \<and> r 1024 = (chunks, True)
            \<and> map_of fs' (out_path (fst kv)) = Some (concat chunks))
     \<and> (\<forall>p. p \<notin> out_path ` set (map fst kvs) \<longrightarrow> map_of fs' p = map_of fs p)"
  using assms
proof (induction kvs arbitrary: c fs evs)
  case Nil
  then show ?case by simp
next
  case (Cons kv kvs)
  obtain d url where kv: "kv = (d, url)" by (cases kv) auto
  have get: "dict_get dl d = Inr url" using Cons.prems(1) kv by simp
  have run: "fetch_loop net dl (d # map fst kvs) c fs = (Inr c', evs, fs')"
    using Cons.prems(3) kv by simp
  have fresh: "out_path d \<notin> out_path ` set (map fst kvs)"
    using Cons.prems(2) kv out_path_inject by auto
  from get show ?case
  proof (cases rule: fetch_loop_cases [where net = net and ids = "map fst kvs" and c = c and fs = fs])
    case refused
    then show ?thesis using run by simp
  next
    case (broken chunks fs1)
    then show ?thesis using run by simp
  next
    case (saved r chunks fs1 res1 evs1 fs2)
    have res: "res1 = Inr c'" and fs2: "fs2 = fs'" and evs: "evs =
        HttpGet url # FileOpen (out_path d) # chunk_events (out_path d) chunks
          @ [FileClose (out_path d), Print (progress_line d url), Sleep WAIT_TIME]
          @ milestone (Suc c) @ evs1"
      using saved(5) run by auto
    have rec: "fetch_loop net dl (map fst kvs) (Suc c) fs1 = (Inr c', evs1, fs')"
      using saved(4) res fs2 by simp
    have "\<forall>kv\<in>set kvs. dict_get dl (fst kv) = Inr (snd kv)" "distinct (map fst kvs)"
      using Cons.prems(1,2) by simp_all
    from Cons.IH [OF this rec]
    have ih: "opened evs1 = map out_path (map fst kvs)"
      "fst ` set (written evs1) \<subseteq> out_path ` set (map fst kvs)"
      "\<forall>kv\<in>set kvs. \<exists>r chunks. net (snd kv) = Some r \<and> r 1024 = (chunks, True)
            \<and> map_of fs' (out_path (fst kv)) = Some (concat chunks)"
      "\<forall>p. p \<notin> out_path ` set (map fst kvs) \<longrightarrow> map_of fs' p = map_of fs1 p"
      by auto
    have o: "opened evs = map out_path (map fst (kv # kvs))"
      using ih(1) by (simp add: evs kv)
    have w: "fst ` set (written evs) \<subseteq> out_path ` set (map fst (kv # kvs))"
      using ih(2) by (auto simp: evs kv)
    have here: "map_of fs' (out_path d) = Some (concat chunks)"
      using ih(4) fresh saved(3) by simp
    have c: "\<forall>kv\<in>set (kv # kvs). \<exists>r chunks. net (snd kv) = Some r \<and> r 1024 = (chunks, True)
            \<and> map_of fs' (out_path (fst kv)) = Some (concat chunks)"
      using ih(3) here saved(1,2) by (auto simp: kv)
    have u: "\<forall>p. p \<notin> out_path ` set (map fst (kv # kvs)) \<longrightarrow> map_of fs' p = map_of fs p"
      using ih(4) saved(3) by (auto simp: kv)
    show ?thesis using o w c u by blast
  qed
qed

subsection \<open>Pacing\<close>

lemma paced_file_events:
  "\<forall>e\<in>set xs. is_file_event e \<Longrightarrow> paced False (xs @ es) = paced False es"
proof (induction xs)
  case Nil
  show ?case by simp
next
  case (Cons x xs)
  then show ?case by (cases x) auto
qed

lemma paced_milestone: "paced s (milestone k @ es) = paced s es"
  by (simp add: milestone_def)

lemma paced_summary: "paced s (summary cat @ es) = paced s es"
  by (cases cat) (simp add: summary_def)

lemma paced_closing: "paced s es \<Longrightarrow> paced s (es @ [Print x])"
  by (induction s es rule: paced.induct) auto

lemma paced_download:
  "paced True (HttpGet url # FileOpen f # chunk_events f chunks @ FileClose f # es)
     = paced False es"
proof -
  have "\<forall>e\<in>set (FileOpen f # chunk_events f chunks @ [FileClose f]). is_file_event e"
    by (auto dest: chunk_events_file)
  from paced_file_events [OF this, of es] show ?thesis by simp
qed

lemma fetch_loop_paced:
  assumes "\<forall>kv\<in>set kvs. dict_get dl (fst kv) = Inr (snd kv)"
    and "fetch_loop net dl (map fst kvs) c fs = (res, evs, fs')"
  shows "paced True evs"
  using assms
proof (induction kvs arbitrary: c fs res evs fs')
  case Nil
  then show ?case by auto
next
  case (Cons kv kvs)
  obtain d url where kv: "kv = (d, url)" by (cases kv) auto
  have get: "dict_get dl d = Inr url" using Cons.prems(1) kv by simp
  have run: "fetch_loop net dl (d # map fst kvs) c fs = (res, evs, fs')"
    using Cons.prems(2) kv by simp
  from get show ?case
  proof (cases rule: fetch_loop_cases [where net = net and ids = "map fst kvs" and c = c and fs = fs])
    case refused
    then show ?thesis using run by auto
  next
    case (broken chunks fs1)
    then have evs: "evs = HttpGet url # FileOpen (out_path d) # chunk_events (out_path d) chunks
              @ FileClose (out_path d) # []"
      using run by auto
    have "paced True (HttpGet url # FileOpen (out_path d) # chunk_events (out_path d) chunks
              @ FileClose (out_path d) # []) = paced False []"
      by (rule paced_download)
    then show ?thesis unfolding evs by simp
  next
    case (saved r chunks fs1 res1 evs1 fs2)
    have evs: "evs =
        HttpGet url # FileOpen (out_path d) # chunk_events (out_path d) chunks
          @ FileClose (out_path d) # (Print (progress_line d url) # Sleep WAIT_TIME
          # milestone (Suc c) @ evs1)"
      using saved(5) run by auto
    have "\<forall>kv\<in>set kvs. dict_get dl (fst kv) = Inr (snd kv)" using Cons.prems(1) by simp
    from Cons.IH [OF this saved(4)] have "paced True evs1" .
    then have "paced False (Print (progress_line d url) # Sleep WAIT_TIME
          # milestone (Suc c) @ evs1)"
      by (simp add: paced_milestone)
    then show ?thesis
      unfolding evs by (simp only: paced_download)
  qed
qed

text \<open>What the monitor says about two consecutive requests.\<close>

lemma paced_rested_quiet:
  "paced True (ys @ es) \<Longrightarrow> \<forall>e\<in>set ys. \<not> is_get e \<Longrightarrow> \<forall>e\<in>set ys. \<not> is_file_event e"
proof (induction ys)
  case Nil
  show ?case by simp
next
  case (Cons y ys)
  then show ?case by (cases y) auto
qed

lemma paced_needs_sleep:
  "paced False (ys @ HttpGet u # zs) \<Longrightarrow> \<forall>e\<in>set ys. \<not> is_get e \<Longrightarrow>
   \<exists>ys1 ys2. ys = ys1 @ Sleep WAIT_TIME # ys2 \<and> (\<forall>e\<in>set ys2. \<not> is_file_event e)"
proof (induction ys)
  case Nil
  then show ?case by simp
next
  case (Cons y ys)
  show ?case
  proof (cases "\<exists>d. y = Sleep d")
    case True
    then obtain d where y: "y = Sleep d" by blast
    then have "d = WAIT_TIME" "paced True (ys @ HttpGet u # zs)"
      using Cons.prems(1) by auto
    then have "y # ys = [] @ Sleep WAIT_TIME # ys" "\<forall>e\<in>set ys. \<not> is_file_event e"
      using paced_rested_quiet [of ys "HttpGet u # zs"] Cons.prems(2) y by auto
    then show ?thesis by blast
  next
    case False
    then have "paced False (ys @ HttpGet u # zs)"
      using Cons.prems by (cases y) auto
    then obtain ys1 ys2 where "ys = ys1 @ Sleep WAIT_TIME # ys2"
      "\<forall>e\<in>set ys2. \<not> is_file_event e"
      using Cons.IH Cons.prems(2) by auto
    then have "y # ys = (y # ys1) @ Sleep WAIT_TIME # ys2 \<and> (\<forall>e\<in>set ys2. \<not> is_file_event e)"
      by simp
    then show ?thesis by blast
  qed
qed

lemma paced_suffix: "paced s (xs @ HttpGet u # es) \<Longrightarrow> paced False es"
proof (induction xs arbitrary: s)
  case Nil
  then show ?case by simp
next
  case (Cons x xs)
  then show ?case by (cases x) auto
qed

lemma paced_sleeps: "paced s es \<Longrightarrow> Sleep d \<in> set es \<Longrightarrow> d = WAIT_TIME"
  by (induction s es rule: paced.induct) auto

subsection \<open>The main program in download mode\<close>

lemma main_fetch:
  assumes "load_catalog labels = Inr (dl, da, counter)"
  shows "main True labels net fs =
     (case fetch_loop net dl (keys dl) 0 fs of
        (Inl e, evs, fs') \<Rightarrow> (Some e, summary (dl, da, counter) @ evs, fs')
      | (Inr c, evs, fs') \<Rightarrow>
          (None, summary (dl, da, counter) @ evs @ [Print ''SRLC downloads complete!''], fs'))"
  using assms by (simp add: main_def Let_def split: prod.splits sum.splits)

lemma load_catalog_entries:
  assumes "load_catalog labels = Inr (dl, da, counter)"
  shows "distinct (keys dl)" "\<forall>kv\<in>set dl. dict_get dl (fst kv) = Inr (snd kv)"
proof -
  show d: "distinct (keys dl)"
    using load_rows_distinct [of labels "[]" "[]" 0 dl da counter] assms
    by (simp add: load_catalog_def keys_def)
  show "\<forall>kv\<in>set dl. dict_get dl (fst kv) = Inr (snd kv)"
    using dict_get_entry [OF d] by blast
qed

lemma main_example:
  "main True [\<lparr>application_number = ''A1'', link = ''http://x/y&id=42&z=1''\<rparr>,
              \<lparr>application_number = ''A2'', link = ''http://x/y&id=42&z=2''\<rparr>,
              \<lparr>application_number = ''A3'', link = ''http://x/y&id=7&z=9''\<rparr>]
     (\<lambda>u. if u = ''http://x/y&id=42&z=2'' then Some (\<lambda>n. ([''BODY'', [], ''42''], True))
          else if u = ''http://x/y&id=7&z=9'' then Some (\<lambda>n. ([''BODY7''], True))
          else None)
     [(out_path 42, ''an older page'')]
   = (None,
      [Print ''Total links: 3'', Print ''Unique entries: 2'', Print ''Unique entries: 2'',
       HttpGet ''http://x/y&id=42&z=2'', FileOpen (out_path 42),
       ChunkRead ''BODY'', FileWrite (out_path 42) ''BODY'', ChunkRead [],
       ChunkRead ''42'', FileWrite (out_path 42) ''42'', FileClose (out_path 42),
       Print ''Saving Product Label Change: 42 URL: http://x/y&id=42&z=2'', Sleep WAIT_TIME,
       HttpGet ''http://x/y&id=7&z=9'', FileOpen (out_path 7),
       ChunkRead ''BODY7'', FileWrite (out_path 7) ''BODY7'', FileClose (out_path 7),
       Print ''Saving Product Label Change: 7 URL: http://x/y&id=7&z=9'', Sleep WAIT_TIME,
       Print ''SRLC downloads complete!''],
      [(out_path 42, ''BODY42''), (out_path 7, ''BODY7'')])"
proof -
  have s: "str 2 = ''2''" "str 3 = ''3''"
    by code_simp+
  have q: "out_path 42 = DATA_PATH @ ''42.html''" "out_path 7 = DATA_PATH @ ''7.html''"
    by (simp_all add: out_path_def str_examples)
  show ?thesis
    unfolding main_def load_catalog_example
    by (simp add: summary_def keys_def s dict_get_def Let_def download_file_def
        open_wb_def file_write_def milestone_def progress_line_def q str_examples)
qed

lemma main_example_aborted:
  "main True [\<lparr>application_number = ''A1'', link = ''http://x/y&id=42&z=1''\<rparr>,
              \<lparr>application_number = ''A2'', link = ''http://x/y&id=42&z=2''\<rparr>,
              \<lparr>application_number = ''A3'', link = ''http://x/y&id=7&z=9''\<rparr>]
     (\<lambda>u. if u = ''http://x/y&id=42&z=2'' then Some (\<lambda>n. ([''BODY42''], True)) else None)
     []
   = (Some ConnectionError,
      [Print ''Total links: 3'', Print ''Unique entries: 2'', Print ''Unique entries: 2'',
       HttpGet ''http://x/y&id=42&z=2'', FileOpen (out_path 42),
       ChunkRead ''BODY42'', FileWrite (out_path 42) ''BODY42'', FileClose (out_path 42),
       Print ''Saving Product Label Change: 42 URL: http://x/y&id=42&z=2'', Sleep WAIT_TIME,
       HttpGet ''http://x/y&id=7&z=9''],
      [(out_path 42, ''BODY42'')])"
proof -
  have s: "str 2 = ''2''" "str 3 = ''3''"
    by code_simp+
  have q: "out_path 42 = DATA_PATH @ ''42.html''" "out_path 7 = DATA_PATH @ ''7.html''"
    by (simp_all add: out_path_def str_examples)
  show ?thesis
    unfolding main_def load_catalog_example
    by (simp add: summary_def keys_def s dict_get_def Let_def download_file_def
        open_wb_def file_write_def milestone_def progress_line_def q str_examples)
qed

lemma main_paced:
  assumes "main True labels net fs = (res, evs, fs')"
  shows "paced True evs"
proof (cases "load_catalog labels")
  case (Inl e)
  then show ?thesis using assms by (simp add: main_def)
next
  case (Inr cat)
  obtain dl da counter where cat: "cat = (dl, da, counter)" by (cases cat) auto
  have load: "load_catalog labels = Inr (dl, da, counter)" using Inr cat by simp
  obtain r evs0 fs0 where run: "fetch_loop net dl (map fst dl) 0 fs = (r, evs0, fs0)"
    by (rule prod_cases3)
  have "paced True evs0"
    using fetch_loop_paced [OF load_catalog_entries(2) [OF load] run] .
  then have "paced True (summary (dl, da, counter) @ evs0)"
    "paced True (summary (dl, da, counter) @ evs0 @ [Print ''SRLC downloads complete!''])"
    by (simp_all only: paced_summary paced_closing)
  then show ?thesis
    using assms run by (auto simp: main_fetch [OF load] keys_def split: sum.splits)
qed

lemma milestone_examples:
  "milestone 99 = []" "milestone 100 = [Print ''>> 100'']" "milestone 200 = [Print ''>> 200'']"
proof -
  have "str 100 = ''100''" "str 200 = ''200''" by code_simp+
  then show "milestone 99 = []" "milestone 100 = [Print ''>> 100'']"
    "milestone 200 = [Print ''>> 200'']"
    by (simp_all add: milestone_def)
qed

section \<open>The catalog loader\<close>

subsection \<open>Extraction of the identifier\<close>

text \<open>
  Claim C1, amended. A link with fewer than two \<open>&\<close>-separated segments makes the extraction
  raise \<^verbatim>\<open>IndexError\<close>, and so does a second segment without \<open>=\<close>. In a link of the form
  \<open>p & k = v rest\<close>, where \<open>p\<close> is the first segment, \<open>k\<close> the name of the second parameter
  and \<open>v\<close> the value that ends at the next \<open>=\<close> or \<open>&\<close> or at the end of the link, the
  decimal representation of an integer \<open>n\<close> of at most 4300 digits in the place of \<open>v\<close>
  yields \<open>n\<close> itself; more generally an integer literal of at most 4300 digits yields the
  integer it denotes. A value that is not an integer literal raises \<^verbatim>\<open>ValueError\<close>, and so
  does a value of more than 4300 digits.
\<close>

theorem extract_drug_id_correct:
  "(length (str_split CHR ''&'' prd_url) < 2 \<longrightarrow> extract_drug_id prd_url = Inl IndexError)
   \<and> (CHR ''&'' \<notin> set p \<and> CHR ''&'' \<notin> set seg \<and> CHR ''='' \<notin> set seg
        \<and> (tail = [] \<or> hd tail = CHR ''&'')
      \<longrightarrow> extract_drug_id (p @ CHR ''&'' # seg @ tail) = Inl IndexError)
   \<and> (CHR ''&'' \<notin> set p \<and> CHR ''&'' \<notin> set k \<and> CHR ''='' \<notin> set k
        \<and> (rest = [] \<or> hd rest = CHR ''&'' \<or> hd rest = CHR ''='')
      \<longrightarrow> (\<bar>n\<bar> < 10 ^ max_str_digits
            \<longrightarrow> extract_drug_id (p @ CHR ''&'' # k @ CHR ''='' # str n @ rest) = Inr n)
        \<and> (CHR ''&'' \<notin> set v \<and> CHR ''='' \<notin> set v \<and> integer_literal v
              \<and> literal_digits v \<le> max_str_digits
            \<longrightarrow> extract_drug_id (p @ CHR ''&'' # k @ CHR ''='' # v @ rest)
                = Inr (literal_value v))
        \<and> (CHR ''&'' \<notin> set v \<and> CHR ''='' \<notin> set v \<and> \<not> integer_literal v
            \<longrightarrow> extract_drug_id (p @ CHR ''&'' # k @ CHR ''='' # v @ rest)
                = Inl ValueError)
        \<and> (CHR ''&'' \<notin> set v \<and> CHR ''='' \<notin> set v \<and> max_str_digits < literal_digits v
            \<longrightarrow> extract_drug_id (p @ CHR ''&'' # k @ CHR ''='' # v @ rest)
                = Inl ValueError))
   \<and> max_str_digits = 4300"
proof -
  have few: "length (str_split CHR ''&'' prd_url) < 2
      \<longrightarrow> extract_drug_id prd_url = Inl IndexError"
    by (simp add: extract_drug_id_def index_def)
  have bare: "CHR ''&'' \<notin> set p \<and> CHR ''&'' \<notin> set seg \<and> CHR ''='' \<notin> set seg
        \<and> (tail = [] \<or> hd tail = CHR ''&'')
      \<longrightarrow> extract_drug_id (p @ CHR ''&'' # seg @ tail) = Inl IndexError"
    by (simp add: segment_without_value)
  have shaped: "(\<bar>n\<bar> < 10 ^ max_str_digits
            \<longrightarrow> extract_drug_id (p @ CHR ''&'' # k @ CHR ''='' # str n @ rest) = Inr n)
        \<and> (CHR ''&'' \<notin> set v \<and> CHR ''='' \<notin> set v \<and> integer_literal v
              \<and> literal_digits v \<le> max_str_digits
            \<longrightarrow> extract_drug_id (p @ CHR ''&'' # k @ CHR ''='' # v @ rest)
                = Inr (literal_value v))
        \<and> (CHR ''&'' \<notin> set v \<and> CHR ''='' \<notin> set v \<and> \<not> integer_literal v
            \<longrightarrow> extract_drug_id (p @ CHR ''&'' # k @ CHR ''='' # v @ rest)
                = Inl ValueError)
        \<and> (CHR ''&'' \<notin> set v \<and> CHR ''='' \<notin> set v \<and> max_str_digits < literal_digits v
            \<longrightarrow> extract_drug_id (p @ CHR ''&'' # k @ CHR ''='' # v @ rest)
                = Inl ValueError)"
    if a: "CHR ''&'' \<notin> set p \<and> CHR ''&'' \<notin> set k \<and> CHR ''='' \<notin> set k
        \<and> (rest = [] \<or> hd rest = CHR ''&'' \<or> hd rest = CHR ''='')"
  proof -
    have canonical: "extract_drug_id (p @ CHR ''&'' # k @ CHR ''='' # str n @ rest) = Inr n"
      if "\<bar>n\<bar> < 10 ^ max_str_digits"
      using a that by (intro extract_drug_id_str) auto
    have parsed: "extract_drug_id (p @ CHR ''&'' # k @ CHR ''='' # v @ rest) = int_of_str v"
      if "CHR ''&'' \<notin> set v" "CHR ''='' \<notin> set v"
      using a that by (intro segment_value) auto
    show ?thesis
      using canonical parsed by (simp add: int_of_str_literal)
  qed
  have "max_str_digits = 4300" by (simp add: max_str_digits_def)
  with few bare shaped show ?thesis by blast
qed

theorem extract_drug_id_correct_witness:
  "length (str_split CHR ''&'' ''http://x/y'') < 2
   \<and> extract_drug_id ''http://x/y'' = Inl IndexError
   \<and> extract_drug_id ''http://x/y&id&z=1'' = Inl IndexError
   \<and> \<bar>42 :: int\<bar> < 10 ^ max_str_digits
   \<and> extract_drug_id ''http://x/y&id=42&z=1'' = Inr 42
   \<and> integer_literal '' -4_2'' \<and> literal_digits '' -4_2'' \<le> max_str_digits
   \<and> extract_drug_id ''http://x/y&id= -4_2=7'' = Inr (- 42)
   \<and> \<not> integer_literal ''12a''
   \<and> extract_drug_id ''http://x/y&id=12a=7'' = Inl ValueError
   \<and> max_str_digits < literal_digits (CHR ''1'' # replicate 4300 CHR ''0'')
   \<and> extract_drug_id (''http://x/y&id=1'' @ replicate 4300 CHR ''0'') = Inl ValueError"
proof -
  have s: "str 42 = ''42''"
    by (rule str_examples)
  have b: "\<bar>42 :: int\<bar> < 10 ^ max_str_digits"
    by (rule small_identifier) simp
  have l: "integer_literal '' -4_2''" "literal_value '' -4_2'' = - 42" "\<not> integer_literal ''12a''"
    "literal_digits '' -4_2'' \<le> max_str_digits"
    by (simp_all add: integer_literal_def literal_value_def literal_digits_def groups_ok_def
        strip_def unsigned_def isspace_def isdigit_def digits_value_def digit_value_def
        max_str_digits_def)
  have n: "length (str_split CHR ''&'' ''http://x/y'') < 2"
    by simp
  have d: "list_all isdigit (CHR ''1'' # replicate 4300 CHR ''0'')"
    by (simp add: list_all_iff isdigit_def)
  have long: "max_str_digits < literal_digits (CHR ''1'' # replicate 4300 CHR ''0'')"
    using literal_digits_digits(1) [OF _ d] by (simp add: max_str_digits_def)
  have c: "CHR ''&'' \<notin> set (CHR ''1'' # replicate 4300 CHR ''0'')"
    "CHR ''='' \<notin> set (CHR ''1'' # replicate 4300 CHR ''0'')"
    by simp_all
  have short: "extract_drug_id ''http://x/y'' = Inl IndexError
      \<and> extract_drug_id ''http://x/y&id&z=1'' = Inl IndexError
      \<and> extract_drug_id ''http://x/y&id=42&z=1'' = Inr 42
      \<and> extract_drug_id ''http://x/y&id= -4_2=7'' = Inr (- 42)
      \<and> extract_drug_id ''http://x/y&id=12a=7'' = Inl ValueError"
    using extract_drug_id_correct [where prd_url = "''http://x/y''" and p = "''http://x/y''"
        and seg = "''id''" and tail = "''&z=1''" and k = "''id''" and rest = "''&z=1''"
        and n = 42 and v = "''12a''"]
      extract_drug_id_correct [where prd_url = "''http://x/y''" and p = "''http://x/y''"
        and seg = "''id''" and tail = "''&z=1''" and k = "''id''" and rest = "''=7''"
        and n = 42 and v = "'' -4_2''"]
      extract_drug_id_correct [where prd_url = "''http://x/y''" and p = "''http://x/y''"
        and seg = "''id''" and tail = "''&z=1''" and k = "''id''" and rest = "''=7''"
        and n = 42 and v = "''12a''"]
      s b l n
    by simp
  have "extract_drug_id (''http://x/y'' @ CHR ''&'' # ''id'' @ CHR ''=''
          # (CHR ''1'' # replicate 4300 CHR ''0'') @ []) = Inl ValueError"
    using extract_drug_id_correct [where prd_url = "''http://x/y''" and p = "''http://x/y''"
        and seg = "''id''" and tail = "''&z=1''" and k = "''id''" and rest = "[]"
        and n = 42 and v = "CHR ''1'' # replicate 4300 CHR ''0''"]
      long c
    by auto
  then have "extract_drug_id (''http://x/y&id=1'' @ replicate 4300 CHR ''0'') = Inl ValueError"
    by simp
  then show ?thesis
    using short b l n long by simp
qed

text \<open>
  The claim as first stated puts no bound on the integer. The decimal representation of
  \<open>10 ^ 4300\<close> is a one followed by 4300 zeros, a base-10 integer of 4301 digits; a link with
  this value in the second segment has the two segments and the \<open>=\<close> that the extraction
  looks for, and the extraction raises \<^verbatim>\<open>ValueError\<close> instead of returning the integer.
\<close>

theorem extract_drug_id_refuses_long_integer:
  "str (10 ^ 4300) = CHR ''1'' # replicate 4300 CHR ''0''
   \<and> index (str_split CHR ''&'' (''http://x/y&id=1'' @ replicate 4300 CHR ''0'')) 1
       = Inr (''id=1'' @ replicate 4300 CHR ''0'')
   \<and> index (str_split CHR ''='' (''id=1'' @ replicate 4300 CHR ''0'')) 1
       = Inr (CHR ''1'' # replicate 4300 CHR ''0'')
   \<and> extract_drug_id (''http://x/y&id=1'' @ replicate 4300 CHR ''0'') = Inl ValueError"
proof -
  let ?v = "CHR ''1'' # replicate 4300 CHR ''0''"
  have d: "list_all isdigit ?v"
    by (simp add: list_all_iff isdigit_def)
  have c: "CHR ''&'' \<notin> set ?v" "CHR ''='' \<notin> set ?v"
    by simp_all
  have "int_of_str ?v = Inl ValueError"
    using int_of_str_digits(1) [OF _ d] by (simp add: max_str_digits_def)
  moreover have "extract_drug_id (''http://x/y'' @ CHR ''&'' # ''id'' @ CHR ''='' # ?v @ [])
      = int_of_str ?v"
    using c by (intro segment_value) auto
  ultimately have e: "extract_drug_id (''http://x/y&id=1'' @ replicate 4300 CHR ''0'')
      = Inl ValueError"
    by simp
  have "CHR ''&'' \<notin> set (''id='' @ ?v)"
    by simp
  from second_segment [of "''http://x/y''" "''id='' @ ?v" "[]", OF _ this]
  have s1: "index (str_split CHR ''&'' (''http://x/y&id=1'' @ replicate 4300 CHR ''0'')) 1
       = Inr (''id=1'' @ replicate 4300 CHR ''0'')"
    by simp
  have "str_split CHR ''='' (''id'' @ CHR ''='' # ?v) = ''id'' # str_split CHR ''='' ?v"
    by (rule str_split_cut) simp
  then have s2: "index (str_split CHR ''='' (''id=1'' @ replicate 4300 CHR ''0'')) 1
       = Inr (CHR ''1'' # replicate 4300 CHR ''0'')"
    using c(2) by (simp add: index_def str_split_no_sep)
  have r: "str (10 ^ 4300) = CHR ''1'' # replicate 4300 CHR ''0''"
    by (rule str_power10)
  show ?thesis
    using r s1 s2 e by (intro conjI)
qed

subsection \<open>Rows with the same identifier\<close>

text \<open>
  Claim C2. When every row of the catalog yields an identifier, the load raises no error, and
  for rows \<open>i < j\<close> that yield the same identifier \<open>d\<close>, row \<open>j\<close> being the last row that
  yields it, each of the two dictionaries holds exactly one entry for \<open>d\<close>: the link of
  row \<open>j\<close> in one, the application number of row \<open>j\<close> in the other.
\<close>

theorem later_row_wins:
  assumes "\<forall>r\<in>set labels. \<exists>n. extract_drug_id (link r) = Inr n"
    and "i < j" and "j < length labels"
    and "extract_drug_id (link (labels ! i)) = Inr d"
    and "extract_drug_id (link (labels ! j)) = Inr d"
    and "\<forall>r\<in>set (drop (Suc j) labels). extract_drug_id (link r) \<noteq> Inr d"
  shows "\<exists>drug_links drug_appid_links.
      load_catalog labels = Inr (drug_links, drug_appid_links, length labels)
      \<and> filter (\<lambda>kv. fst kv = d) drug_links = [(d, link (labels ! j))]
      \<and> filter (\<lambda>kv. fst kv = d) drug_appid_links = [(d, application_number (labels ! j))]
      \<and> dict_get drug_links d = Inr (link (labels ! j))
      \<and> dict_get drug_appid_links d = Inr (application_number (labels ! j))"
proof -
  obtain dl da where load: "load_rows labels ([], [], 0) = Inr (dl, da, 0 + length labels)"
    using load_rows_total [OF assms(1), of "[]" "[]" 0] by blast
  have m: "map_of dl d = Some (link (labels ! j))"
    "map_of da d = Some (application_number (labels ! j))"
    using load_rows_last [OF load assms(3,5,6)] by auto
  have "distinct (keys dl)"
    using load_rows_distinct [OF load] by (simp add: keys_def)
  moreover have "keys dl = keys da"
    using load_rows_keys [OF load] by (simp add: keys_def)
  ultimately have dist: "distinct (keys dl)" "distinct (keys da)" by auto
  show ?thesis
    using load m single_entry [OF dist(1) m(1)] single_entry [OF dist(2) m(2)]
    by (simp add: load_catalog_def dict_get_def)
qed

theorem later_row_wins_witness:
  "\<exists>drug_links drug_appid_links.
     load_catalog [\<lparr>application_number = ''A1'', link = ''http://x/y&id=42&z=1''\<rparr>,
                   \<lparr>application_number = ''A2'', link = ''http://x/y&id=42&z=2''\<rparr>,
                   \<lparr>application_number = ''A3'', link = ''http://x/y&id=7&z=9''\<rparr>]
       = Inr (drug_links, drug_appid_links, 3)
     \<and> filter (\<lambda>kv. fst kv = 42) drug_links = [(42, ''http://x/y&id=42&z=2'')]
     \<and> filter (\<lambda>kv. fst kv = 42) drug_appid_links = [(42, ''A2'')]
     \<and> dict_get drug_links 42 = Inr ''http://x/y&id=42&z=2''
     \<and> dict_get drug_appid_links 42 = Inr ''A2''"
proof -
  note e = extract_examples
  show ?thesis
    using later_row_wins [of "[\<lparr>application_number = ''A1'', link = ''http://x/y&id=42&z=1''\<rparr>,
                   \<lparr>application_number = ''A2'', link = ''http://x/y&id=42&z=2''\<rparr>,
                   \<lparr>application_number = ''A3'', link = ''http://x/y&id=7&z=9''\<rparr>]" 0 1 42]
    by (simp add: e numeral_3_eq_3)
qed

subsection \<open>The two dictionaries have the same keys\<close>

text \<open>
  Claim C9. The state of the catalog loop after its first \<open>n\<close> rows is the result of the
  load on those rows alone, and in that state the two dictionaries have the same keys, in
  the same order; in particular this holds at the end of the load.
\<close>

theorem parallel_keys:
  "load_catalog labels =
     (case load_catalog (take n labels) of
        Inl e \<Rightarrow> Inl e
      | Inr s \<Rightarrow> load_rows (drop n labels) s)
   \<and> (load_catalog (take n labels) = Inr (drug_links, drug_appid_links, counter)
        \<longrightarrow> keys drug_links = keys drug_appid_links
          \<and> set (keys drug_links) = set (keys drug_appid_links))"
proof
  show "load_catalog labels =
     (case load_catalog (take n labels) of Inl e \<Rightarrow> Inl e | Inr s \<Rightarrow> load_rows (drop n labels) s)"
    using load_rows_append [of "take n labels" "drop n labels" "([], [], 0)"]
    by (simp add: load_catalog_def)
  show "load_catalog (take n labels) = Inr (drug_links, drug_appid_links, counter)
        \<longrightarrow> keys drug_links = keys drug_appid_links
          \<and> set (keys drug_links) = set (keys drug_appid_links)"
    using load_rows_keys [of "take n labels" "[]" "[]" 0 drug_links drug_appid_links counter]
    by (simp add: load_catalog_def)
qed

theorem parallel_keys_witness:
  "load_catalog (take 2 [\<lparr>application_number = ''A1'', link = ''http://x/y&id=42&z=1''\<rparr>,
                   \<lparr>application_number = ''A3'', link = ''http://x/y&id=7&z=9''\<rparr>,
                   \<lparr>application_number = ''A4'', link = ''http://x/y''\<rparr>])
     = Inr ([(42, ''http://x/y&id=42&z=1''), (7, ''http://x/y&id=7&z=9'')],
            [(42, ''A1''), (7, ''A3'')], 2)
   \<and> keys [(42 :: int, ''http://x/y&id=42&z=1''), (7, ''http://x/y&id=7&z=9'')]
     = keys [(42 :: int, ''A1''), (7, ''A3'')]"
proof -
  note e = extract_examples
  have l: "load_catalog (take 2 [\<lparr>application_number = ''A1'', link = ''http://x/y&id=42&z=1''\<rparr>,
                   \<lparr>application_number = ''A3'', link = ''http://x/y&id=7&z=9''\<rparr>,
                   \<lparr>application_number = ''A4'', link = ''http://x/y''\<rparr>])
     = Inr ([(42, ''http://x/y&id=42&z=1''), (7, ''http://x/y&id=7&z=9'')],
            [(42, ''A1''), (7, ''A3'')], 2)"
    by (simp add: load_catalog_def e)
  show ?thesis
    using l parallel_keys [of "[\<lparr>application_number = ''A1'', link = ''http://x/y&id=42&z=1''\<rparr>,
                   \<lparr>application_number = ''A3'', link = ''http://x/y&id=7&z=9''\<rparr>,
                   \<lparr>application_number = ''A4'', link = ''http://x/y''\<rparr>]" 2
        "[(42, ''http://x/y&id=42&z=1''), (7, ''http://x/y&id=7&z=9'')]"
        "[(42, ''A1''), (7, ''A3'')]" 2]
    by blast
qed

subsection \<open>A malformed row\<close>

text \<open>
  Claim C6. When some row of the catalog has a malformed link, the program ends with
  \<^verbatim>\<open>IndexError\<close> or \<^verbatim>\<open>ValueError\<close> in either mode, whatever the network and the file
  system are; the run has no event at all (no request, no file opened or written, nothing
  printed) and leaves the file system as it was.
\<close>

theorem malformed_row_aborts:
  assumes "r \<in> set labels" and "malformed (link r)"
  shows "\<exists>e. (e = IndexError \<or> e = ValueError)
     \<and> main DOWNLOAD_DATA labels net fs = (Some e, [], fs)"
proof -
  obtain e0 where "extract_drug_id (link r) = Inl e0"
    using assms(2) malformed_fails by blast
  then obtain e where e: "load_rows labels ([], [], 0) = Inl e"
    using load_rows_fails [OF assms(1)] by blast
  then have "e = IndexError \<or> e = ValueError"
    by (rule load_rows_errors)
  then show ?thesis using e by (simp add: main_def load_catalog_def)
qed

theorem malformed_row_aborts_witness:
  "malformed ''http://x/y''
   \<and> (\<exists>e. (e = IndexError \<or> e = ValueError)
      \<and> main True [\<lparr>application_number = ''A1'', link = ''http://x/y&id=42&z=1''\<rparr>,
                    \<lparr>application_number = ''A2'', link = ''http://x/y''\<rparr>]
            (\<lambda>u. Some (\<lambda>n. ([''BODY''], True))) [(''f'', ''old'')]
          = (Some e, [], [(''f'', ''old'')]))"
proof -
  have m: "malformed ''http://x/y''"
    by (simp add: malformed_def)
  show ?thesis
    using m malformed_row_aborts [of "\<lparr>application_number = ''A2'', link = ''http://x/y''\<rparr>"
        "[\<lparr>application_number = ''A1'', link = ''http://x/y&id=42&z=1''\<rparr>,
          \<lparr>application_number = ''A2'', link = ''http://x/y''\<rparr>]"
        True "\<lambda>u. Some (\<lambda>n. ([''BODY''], True))" "[(''f'', ''old'')]"]
    by simp
qed

section \<open>The fetcher and the checker\<close>

subsection \<open>What \<^verbatim>\<open>download_file\<close> writes\<close>

text \<open>
  Claim C4. When the request for a URL gives a response, the output file holds afterwards
  exactly the non-empty chunks that \<^verbatim>\<open>iter_content(chunk_size=1024)\<close> yielded, joined in
  order, whatever the file held before; its length is the sum of the lengths of those
  chunks; and the writes are those chunks, one write each, none of them empty.
\<close>

theorem download_file_writes_chunks:
  assumes "net url = Some r" and "r 1024 = (chunks, ended)"
    and "download_file net url local_filename fs = (res, evs, fs')"
  shows "\<exists>content. dict_get fs' local_filename = Inr content
      \<and> content = concat (filter (\<lambda>c. c \<noteq> []) chunks)
      \<and> length content = sum_list (map length (filter (\<lambda>c. c \<noteq> []) chunks))
      \<and> written evs = map (Pair local_filename) (filter (\<lambda>c. c \<noteq> []) chunks)"
proof -
  obtain fs1 where d: "download_file net url local_filename fs =
      (if ended then Inr local_filename else Inl ConnectionError,
       HttpGet url # FileOpen local_filename # chunk_events local_filename chunks
         @ [FileClose local_filename], fs1)"
    and m: "map_of fs1 = (map_of fs)(local_filename \<mapsto> concat chunks)"
    using download_file_connected [of net url r chunks ended local_filename fs] assms(1,2)
    by blast
  have evs: "evs = HttpGet url # FileOpen local_filename # chunk_events local_filename chunks
         @ [FileClose local_filename]" and fs': "fs' = fs1"
    using d assms(3) by auto
  have "dict_get fs' local_filename = Inr (concat (filter (\<lambda>c. c \<noteq> []) chunks))"
    using m by (simp add: fs' dict_get_def concat_nonempty)
  moreover have "length (concat (filter (\<lambda>c. c \<noteq> []) chunks))
      = sum_list (map length (filter (\<lambda>c. c \<noteq> []) chunks))"
    by (simp add: length_concat)
  moreover have "written evs = map (Pair local_filename) (filter (\<lambda>c. c \<noteq> []) chunks)"
    by (simp add: evs)
  ultimately show ?thesis by blast
qed

theorem download_file_writes_chunks_witness:
  "\<exists>res evs fs'.
     download_file (\<lambda>u. if u = ''http://x/y&id=42&z=2''
                         then Some (\<lambda>n. ([''BODY'', [], ''42''], True)) else None)
       ''http://x/y&id=42&z=2'' ''out/42.html'' [(''out/42.html'', ''an older page'')]
       = (res, evs, fs')
     \<and> dict_get fs' ''out/42.html'' = Inr ''BODY42''
     \<and> length ''BODY42'' = sum_list (map length [''BODY'', ''42''])
     \<and> written evs = [(''out/42.html'', ''BODY''), (''out/42.html'', ''42'')]"
proof -
  define net :: network where
    "net = (\<lambda>u. if u = ''http://x/y&id=42&z=2''
                 then Some (\<lambda>n. ([''BODY'', [], ''42''], True)) else None)"
  obtain res evs fs' where d:
    "download_file net ''http://x/y&id=42&z=2'' ''out/42.html''
       [(''out/42.html'', ''an older page'')] = (res, evs, fs')"
    by (rule prod_cases3)
  have n: "net ''http://x/y&id=42&z=2'' = Some (\<lambda>n. ([''BODY'', [], ''42''], True))"
    by (simp add: net_def)
  show ?thesis
    using download_file_writes_chunks [of net "''http://x/y&id=42&z=2''"
        "\<lambda>n. ([''BODY'', [], ''42''], True)" "[''BODY'', [], ''42'']" True "''out/42.html''"
        "[(''out/42.html'', ''an older page'')]" res evs fs'] n d
    unfolding net_def by simp
qed

subsection \<open>The file is there before the body is read\<close>

text \<open>
  Claim C10. When the request gives a response, the run of \<^verbatim>\<open>download_file\<close> starts with
  the request and the opening of the output file, so the file is opened before any chunk
  is read; the call returns its \<^verbatim>\<open>local_filename\<close> argument when the body ends
  normally; the file exists afterwards; and when every chunk is empty the file is empty,
  whatever it held before.
\<close>

theorem download_file_opens_first:
  assumes "net url = Some r" and "r 1024 = (chunks, ended)"
  shows "\<exists>evs fs'.
      download_file net url local_filename fs =
        (if ended then Inr local_filename else Inl ConnectionError,
         HttpGet url # FileOpen local_filename # evs, fs')
      \<and> evs = chunk_events local_filename chunks @ [FileClose local_filename]
      \<and> local_filename \<in> set (keys fs')
      \<and> ((\<forall>c\<in>set chunks. c = []) \<longrightarrow> dict_get fs' local_filename = Inr [])"
proof -
  obtain fs1 where d: "download_file net url local_filename fs =
      (if ended then Inr local_filename else Inl ConnectionError,
       HttpGet url # FileOpen local_filename # chunk_events local_filename chunks
         @ [FileClose local_filename], fs1)"
    and m: "map_of fs1 = (map_of fs)(local_filename \<mapsto> concat chunks)"
    and k: "set (keys fs1) = insert local_filename (set (keys fs))"
    using download_file_connected [of net url r chunks ended local_filename fs] assms(1,2)
    by blast
  have "(\<forall>c\<in>set chunks. c = []) \<longrightarrow> dict_get fs1 local_filename = Inr []"
    using m by (simp add: dict_get_def)
  then show ?thesis using d k by simp
qed

theorem download_file_opens_first_witness:
  "\<exists>fs'.
     download_file (\<lambda>u. Some (\<lambda>n. ([[], []], True))) ''http://x/y&id=42&z=2'' ''out/42.html''
       [(''out/42.html'', ''an older page'')]
       = (Inr ''out/42.html'',
          [HttpGet ''http://x/y&id=42&z=2'', FileOpen ''out/42.html'',
           ChunkRead [], ChunkRead [], FileClose ''out/42.html''], fs')
     \<and> ''out/42.html'' \<in> set (keys fs')
     \<and> dict_get fs' ''out/42.html'' = Inr []"
  using download_file_opens_first [of "\<lambda>u. Some (\<lambda>n. ([[], []], True))" "''http://x/y&id=42&z=2''"
      "\<lambda>n. ([[], []], True)" "[[], []]" True "''out/42.html''"
      "[(''out/42.html'', ''an older page'')]"]
  by simp

subsection \<open>The checker compares two numbers\<close>

text \<open>
  Claim C3. In the mode that only verifies, the program prints its line of success exactly
  when the number of entries of the output directory equals the number of keys of the
  dictionary; what it prints depends on the directory through that number alone, so a
  directory with as many entries as there are keys is reported as complete whatever the
  names of its entries are. The run of the main program in this mode is the summary, the
  lines of the check and the closing line, with the file system untouched.
\<close>

theorem checker_counts_only:
  "(Print ''Skippping, data already downloaded!'' \<in> set (check_files drug_links fs)
      \<longleftrightarrow> length (listdir DATA_PATH fs) = length (keys drug_links))
   \<and> (length (listdir DATA_PATH fs) = length (keys drug_links)
      \<longrightarrow> check_files drug_links fs =
            [Print (''Total files: '' @ str (int (length (keys drug_links)))),
             Print ''Skippping, data already downloaded!''])
   \<and> (length (listdir DATA_PATH fs) = length (listdir DATA_PATH fs2)
      \<longrightarrow> check_files drug_links fs = check_files drug_links fs2)
   \<and> (load_catalog labels = Inr (drug_links, drug_appid_links, counter)
      \<longrightarrow> main False labels net fs =
            (None,
             summary (drug_links, drug_appid_links, counter) @ check_files drug_links fs
               @ [Print ''SRLC downloads complete!''],
             fs))"
  by (simp add: check_files_def Let_def main_def)

theorem checker_counts_only_witness:
  "length (listdir DATA_PATH [(DATA_PATH @ ''notes.txt'', ''x''), (DATA_PATH @ ''old/7.html'', ''y'')])
     = length (keys [(42 :: int, ''http://x/y&id=42&z=2''), (7, ''http://x/y&id=7&z=9'')])
   \<and> listdir DATA_PATH [(DATA_PATH @ ''notes.txt'', ''x''), (DATA_PATH @ ''old/7.html'', ''y'')]
     = [''notes.txt'', ''old'']
   \<and> check_files [(42, ''http://x/y&id=42&z=2''), (7, ''http://x/y&id=7&z=9'')]
       [(DATA_PATH @ ''notes.txt'', ''x''), (DATA_PATH @ ''old/7.html'', ''y'')]
     = [Print ''Total files: 2'', Print ''Skippping, data already downloaded!'']
   \<and> check_files [(42, ''http://x/y&id=42&z=2''), (7, ''http://x/y&id=7&z=9'')]
       [(DATA_PATH @ ''notes.txt'', ''x''), (DATA_PATH @ ''old/7.html'', ''y'')]
     = check_files [(42, ''http://x/y&id=42&z=2''), (7, ''http://x/y&id=7&z=9'')]
         [(DATA_PATH @ ''42.html'', ''x''), (DATA_PATH @ ''7.html'', ''y'')]
   \<and> main False [\<lparr>application_number = ''A1'', link = ''http://x/y&id=42&z=1''\<rparr>,
                  \<lparr>application_number = ''A2'', link = ''http://x/y&id=42&z=2''\<rparr>,
                  \<lparr>application_number = ''A3'', link = ''http://x/y&id=7&z=9''\<rparr>]
       (\<lambda>u. None) [(DATA_PATH @ ''notes.txt'', ''x''), (DATA_PATH @ ''old/7.html'', ''y'')]
     = (None,
        [Print ''Total links: 3'', Print ''Unique entries: 2'', Print ''Unique entries: 2'',
         Print ''Total files: 2'', Print ''Skippping, data already downloaded!'',
         Print ''SRLC downloads complete!''],
        [(DATA_PATH @ ''notes.txt'', ''x''), (DATA_PATH @ ''old/7.html'', ''y'')])"
proof -
  have s: "str 2 = ''2''" "str 3 = ''3''"
    by code_simp+
  show ?thesis
    using checker_counts_only [of "[(42, ''http://x/y&id=42&z=2''), (7, ''http://x/y&id=7&z=9'')]"
        "[(DATA_PATH @ ''notes.txt'', ''x''), (DATA_PATH @ ''old/7.html'', ''y'')]"
        "[(DATA_PATH @ ''42.html'', ''x''), (DATA_PATH @ ''7.html'', ''y'')]"
        "[\<lparr>application_number = ''A1'', link = ''http://x/y&id=42&z=1''\<rparr>,
          \<lparr>application_number = ''A2'', link = ''http://x/y&id=42&z=2''\<rparr>,
          \<lparr>application_number = ''A3'', link = ''http://x/y&id=7&z=9''\<rparr>]"
        "[(42, ''A2''), (7, ''A3'')]" 3 "\<lambda>u. None"]
    by (auto simp: listdir_examples load_catalog_example keys_def summary_def s)
qed

subsection \<open>One file for each key\<close>

text \<open>
  Claim C5. When a run in download mode ends without an exception, the files it opened for
  writing are the paths \<^verbatim>\<open>DATA_PATH + str(drug_id) + ".html"\<close> of the keys of the
  dictionary, each once and in the order of the keys, and these paths are pairwise different; every
  write goes to one of them; each of them holds afterwards the whole body of the response
  for the link of its key, whatever it held before; and every other path of the file system
  is as it was.
\<close>

theorem fetcher_writes_one_file_per_key:
  assumes "main True labels net fs = (None, evs, fs')"
  shows "\<exists>drug_links drug_appid_links counter.
      load_catalog labels = Inr (drug_links, drug_appid_links, counter)
      \<and> opened evs = map out_path (keys drug_links)
      \<and> distinct (map out_path (keys drug_links))
      \<and> fst ` set (written evs) \<subseteq> out_path ` set (keys drug_links)
      \<and> (\<forall>kv\<in>set drug_links. \<exists>r chunks.
             net (snd kv) = Some r \<and> r 1024 = (chunks, True)
             \<and> dict_get fs' (out_path (fst kv)) = Inr (concat chunks))
      \<and> (\<forall>p. p \<notin> out_path ` set (keys drug_links) \<longrightarrow> map_of fs' p = map_of fs p)"
proof (cases "load_catalog labels")
  case (Inl e)
  then show ?thesis using assms by (simp add: main_def)
next
  case (Inr cat)
  obtain dl da counter where cat: "cat = (dl, da, counter)" by (cases cat) auto
  have load: "load_catalog labels = Inr (dl, da, counter)" using Inr cat by simp
  note ent = load_catalog_entries [OF load]
  obtain r evs0 fs0 where run: "fetch_loop net dl (map fst dl) 0 fs = (r, evs0, fs0)"
    by (rule prod_cases3)
  from assms run obtain c' where r: "r = Inr c'"
    and evs: "evs = summary (dl, da, counter) @ evs0 @ [Print ''SRLC downloads complete!'']"
    and fs': "fs' = fs0"
    by (cases r) (auto simp: main_fetch [OF load] keys_def)
  have dist: "distinct (map fst dl)" using ent(1) by (simp add: keys_def)
  have run': "fetch_loop net dl (map fst dl) 0 fs = (Inr c', evs0, fs')"
    using run r fs' by simp
  from fetch_loop_files [OF ent(2) dist run']
  have f: "opened evs0 = map out_path (map fst dl)"
    "fst ` set (written evs0) \<subseteq> out_path ` set (map fst dl)"
    "\<forall>kv\<in>set dl. \<exists>r chunks. net (snd kv) = Some r \<and> r 1024 = (chunks, True)
            \<and> map_of fs' (out_path (fst kv)) = Some (concat chunks)"
    "\<forall>p. p \<notin> out_path ` set (map fst dl) \<longrightarrow> map_of fs' p = map_of fs p"
    by auto
  have o: "opened evs = map out_path (keys dl)"
    using f(1) by (simp add: evs summary_def keys_def)
  have w: "fst ` set (written evs) \<subseteq> out_path ` set (keys dl)"
    using f(2) by (simp add: evs summary_def keys_def)
  have d: "distinct (map out_path (keys dl))"
    using ent(1) out_path_inject by (simp add: distinct_map inj_on_def)
  have c: "\<forall>kv\<in>set dl. \<exists>r chunks. net (snd kv) = Some r \<and> r 1024 = (chunks, True)
            \<and> dict_get fs' (out_path (fst kv)) = Inr (concat chunks)"
  proof
    fix kv assume "kv \<in> set dl"
    then obtain r chunks where "net (snd kv) = Some r" "r 1024 = (chunks, True)"
      "map_of fs' (out_path (fst kv)) = Some (concat chunks)"
      using f(3) by blast
    then show "\<exists>r chunks. net (snd kv) = Some r \<and> r 1024 = (chunks, True)
            \<and> dict_get fs' (out_path (fst kv)) = Inr (concat chunks)"
      by (auto simp: dict_get_def)
  qed
  have u: "\<forall>p. p \<notin> out_path ` set (keys dl) \<longrightarrow> map_of fs' p = map_of fs p"
    using f(4) by (simp add: keys_def)
  show ?thesis using load o d w c u by blast
qed

theorem fetcher_writes_one_file_per_key_witness:
  "main True [\<lparr>application_number = ''A1'', link = ''http://x/y&id=42&z=1''\<rparr>,
      \<lparr>application_number = ''A2'', link = ''http://x/y&id=42&z=2''\<rparr>,
      \<lparr>application_number = ''A3'', link = ''http://x/y&id=7&z=9''\<rparr>]
     (\<lambda>u. if u = ''http://x/y&id=42&z=2'' then Some (\<lambda>n. ([''BODY'', [], ''42''], True))
          else if u = ''http://x/y&id=7&z=9'' then Some (\<lambda>n. ([''BODY7''], True))
          else None)
     [(out_path 42, ''an older page'')]
   = (None,
      [Print ''Total links: 3'', Print ''Unique entries: 2'', Print ''Unique entries: 2'',
       HttpGet ''http://x/y&id=42&z=2'', FileOpen (out_path 42),
       ChunkRead ''BODY'', FileWrite (out_path 42) ''BODY'', ChunkRead [],
       ChunkRead ''42'', FileWrite (out_path 42) ''42'', FileClose (out_path 42),
       Print ''Saving Product Label Change: 42 URL: http://x/y&id=42&z=2'', Sleep WAIT_TIME,
       HttpGet ''http://x/y&id=7&z=9'', FileOpen (out_path 7),
       ChunkRead ''BODY7'', FileWrite (out_path 7) ''BODY7'', FileClose (out_path 7),
       Print ''Saving Product Label Change: 7 URL: http://x/y&id=7&z=9'', Sleep WAIT_TIME,
       Print ''SRLC downloads complete!''],
      [(out_path 42, ''BODY42''), (out_path 7, ''BODY7'')])
   \<and> (\<exists>drug_links drug_appid_links counter.
      load_catalog [\<lparr>application_number = ''A1'', link = ''http://x/y&id=42&z=1''\<rparr>,
      \<lparr>application_number = ''A2'', link = ''http://x/y&id=42&z=2''\<rparr>,
      \<lparr>application_number = ''A3'', link = ''http://x/y&id=7&z=9''\<rparr>] = Inr (drug_links, drug_appid_links, counter)
      \<and> [out_path 42, out_path 7] = map out_path (keys drug_links)
      \<and> distinct (map out_path (keys drug_links))
      \<and> (\<forall>p. p \<notin> out_path ` set (keys drug_links)
            \<longrightarrow> map_of [(out_path 42, ''BODY42''), (out_path 7, ''BODY7'')] p
              = map_of [(out_path 42, ''an older page'')] p))"
proof -
  note run = main_example
  from fetcher_writes_one_file_per_key [OF run]
  obtain drug_links drug_appid_links counter where
    "load_catalog [\<lparr>application_number = ''A1'', link = ''http://x/y&id=42&z=1''\<rparr>,
      \<lparr>application_number = ''A2'', link = ''http://x/y&id=42&z=2''\<rparr>,
      \<lparr>application_number = ''A3'', link = ''http://x/y&id=7&z=9''\<rparr>] = Inr (drug_links, drug_appid_links, counter)"
    "opened [Print ''Total links: 3'', Print ''Unique entries: 2'', Print ''Unique entries: 2'',
       HttpGet ''http://x/y&id=42&z=2'', FileOpen (out_path 42),
       ChunkRead ''BODY'', FileWrite (out_path 42) ''BODY'', ChunkRead [],
       ChunkRead ''42'', FileWrite (out_path 42) ''42'', FileClose (out_path 42),
       Print ''Saving Product Label Change: 42 URL: http://x/y&id=42&z=2'', Sleep WAIT_TIME,
       HttpGet ''http://x/y&id=7&z=9'', FileOpen (out_path 7),
       ChunkRead ''BODY7'', FileWrite (out_path 7) ''BODY7'', FileClose (out_path 7),
       Print ''Saving Product Label Change: 7 URL: http://x/y&id=7&z=9'', Sleep WAIT_TIME,
       Print ''SRLC downloads complete!''] = map out_path (keys drug_links)"
    "distinct (map out_path (keys drug_links))"
    "\<forall>p. p \<notin> out_path ` set (keys drug_links)
       \<longrightarrow> map_of [(out_path 42, ''BODY42''), (out_path 7, ''BODY7'')] p
         = map_of [(out_path 42, ''an older page'')] p"
    by blast
  then show ?thesis using run by auto
qed

subsection \<open>A sleep between two requests\<close>

text \<open>
  Claim C7. In a run in download mode, whether it ends normally or with an exception, take
  two requests with no request between them. Among the events between the two there is a
  sleep of \<^term>\<open>WAIT_TIME\<close>, that is 0.2 seconds, and no file is opened, read into,
  written or closed after that sleep and before the second request: the write of the first
  identifier is over when the program sleeps, and the next request is issued only after the
  sleep. Every sleep of the run lasts \<^term>\<open>WAIT_TIME\<close>.
\<close>

theorem sleep_between_requests:
  assumes "main True labels net fs = (res, evs, fs')"
    and "evs = xs @ HttpGet u # ys @ HttpGet u' # zs"
    and "\<forall>e\<in>set ys. \<not> is_get e"
  shows "(\<exists>ys1 ys2. ys = ys1 @ Sleep WAIT_TIME # ys2 \<and> (\<forall>e\<in>set ys2. \<not> is_file_event e))
     \<and> (\<forall>d. Sleep d \<in> set evs \<longrightarrow> d = WAIT_TIME)
     \<and> WAIT_TIME = 2 / 10"
proof -
  have p: "paced True evs" using assms(1) by (rule main_paced)
  then have "paced False (ys @ HttpGet u' # zs)"
    unfolding assms(2) by (rule paced_suffix)
  then have "\<exists>ys1 ys2. ys = ys1 @ Sleep WAIT_TIME # ys2 \<and> (\<forall>e\<in>set ys2. \<not> is_file_event e)"
    using assms(3) by (rule paced_needs_sleep)
  moreover have "\<forall>d. Sleep d \<in> set evs \<longrightarrow> d = WAIT_TIME"
    using paced_sleeps [OF p] by blast
  moreover have "WAIT_TIME = 2 / 10" by (simp add: WAIT_TIME_def)
  ultimately show ?thesis by blast
qed

theorem sleep_between_requests_witness:
  "main True [\<lparr>application_number = ''A1'', link = ''http://x/y&id=42&z=1''\<rparr>,
      \<lparr>application_number = ''A2'', link = ''http://x/y&id=42&z=2''\<rparr>,
      \<lparr>application_number = ''A3'', link = ''http://x/y&id=7&z=9''\<rparr>]
     (\<lambda>u. if u = ''http://x/y&id=42&z=2'' then Some (\<lambda>n. ([''BODY'', [], ''42''], True))
          else if u = ''http://x/y&id=7&z=9'' then Some (\<lambda>n. ([''BODY7''], True))
          else None)
     [(out_path 42, ''an older page'')]
   = (None,
      [Print ''Total links: 3'', Print ''Unique entries: 2'', Print ''Unique entries: 2'']
      @ HttpGet ''http://x/y&id=42&z=2''
      # [FileOpen (out_path 42),
       ChunkRead ''BODY'', FileWrite (out_path 42) ''BODY'', ChunkRead [],
       ChunkRead ''42'', FileWrite (out_path 42) ''42'', FileClose (out_path 42),
       Print ''Saving Product Label Change: 42 URL: http://x/y&id=42&z=2'', Sleep WAIT_TIME]
      @ HttpGet ''http://x/y&id=7&z=9''
      # [FileOpen (out_path 7),
       ChunkRead ''BODY7'', FileWrite (out_path 7) ''BODY7'', FileClose (out_path 7),
       Print ''Saving Product Label Change: 7 URL: http://x/y&id=7&z=9'', Sleep WAIT_TIME,
       Print ''SRLC downloads complete!''],
      [(out_path 42, ''BODY42''), (out_path 7, ''BODY7'')])
   \<and> (\<exists>ys1 ys2.
       [FileOpen (out_path 42),
       ChunkRead ''BODY'', FileWrite (out_path 42) ''BODY'', ChunkRead [],
       ChunkRead ''42'', FileWrite (out_path 42) ''42'', FileClose (out_path 42),
       Print ''Saving Product Label Change: 42 URL: http://x/y&id=42&z=2'', Sleep WAIT_TIME]
       = ys1 @ Sleep WAIT_TIME # ys2 \<and> (\<forall>e\<in>set ys2. \<not> is_file_event e))
   \<and> WAIT_TIME = 2 / 10"
proof -
  have run: "main True [\<lparr>application_number = ''A1'', link = ''http://x/y&id=42&z=1''\<rparr>,
      \<lparr>application_number = ''A2'', link = ''http://x/y&id=42&z=2''\<rparr>,
      \<lparr>application_number = ''A3'', link = ''http://x/y&id=7&z=9''\<rparr>]
     (\<lambda>u. if u = ''http://x/y&id=42&z=2'' then Some (\<lambda>n. ([''BODY'', [], ''42''], True))
          else if u = ''http://x/y&id=7&z=9'' then Some (\<lambda>n. ([''BODY7''], True))
          else None)
     [(out_path 42, ''an older page'')]
   = (None,
      [Print ''Total links: 3'', Print ''Unique entries: 2'', Print ''Unique entries: 2'']
      @ HttpGet ''http://x/y&id=42&z=2''
      # [FileOpen (out_path 42),
       ChunkRead ''BODY'', FileWrite (out_path 42) ''BODY'', ChunkRead [],
       ChunkRead ''42'', FileWrite (out_path 42) ''42'', FileClose (out_path 42),
       Print ''Saving Product Label Change: 42 URL: http://x/y&id=42&z=2'', Sleep WAIT_TIME]
      @ HttpGet ''http://x/y&id=7&z=9''
      # [FileOpen (out_path 7),
       ChunkRead ''BODY7'', FileWrite (out_path 7) ''BODY7'', FileClose (out_path 7),
       Print ''Saving Product Label Change: 7 URL: http://x/y&id=7&z=9'', Sleep WAIT_TIME,
       Print ''SRLC downloads complete!''],
      [(out_path 42, ''BODY42''), (out_path 7, ''BODY7'')])"
    using main_example by simp
  have quiet: "\<forall>e\<in>set [FileOpen (out_path 42),
       ChunkRead ''BODY'', FileWrite (out_path 42) ''BODY'', ChunkRead [],
       ChunkRead ''42'', FileWrite (out_path 42) ''42'', FileClose (out_path 42),
       Print ''Saving Product Label Change: 42 URL: http://x/y&id=42&z=2'', Sleep WAIT_TIME]. \<not> is_get e"
    by simp
  from sleep_between_requests [OF run refl quiet] run show ?thesis
    by blast
qed

subsection \<open>Progress lines and milestones\<close>

text \<open>
  Claim C8. In a run in download mode on a catalog that loads, let \<open>m\<close> be the number of
  downloads that returned. The run prints the three lines of the summary, then for the
  \<open>k\<close>-th of these downloads, \<open>k\<close> counting from one in the order of the keys, one line
  with the identifier and the link, followed by the line of the counter exactly when \<open>k\<close>
  is a multiple of 100, and nothing else but the closing line of a run that ends normally.
  Such a run has completed every download; a run that ends with an exception has issued one
  request more than it completed downloads.
\<close>

theorem progress_and_milestones:
  assumes "main True labels net fs = (res, evs, fs')"
    and "load_catalog labels = Inr (drug_links, drug_appid_links, counter)"
  shows "\<exists>m\<le>length drug_links.
      printed evs = printed (summary (drug_links, drug_appid_links, counter))
        @ loop_lines (enumerate 1 (take m drug_links))
        @ (if res = None then [''SRLC downloads complete!''] else [])
      \<and> (res = None \<longrightarrow> m = length drug_links \<and> requested evs = map snd drug_links)
      \<and> (res \<noteq> None \<longrightarrow> m < length drug_links
            \<and> requested evs = map snd (take (Suc m) drug_links))"
proof -
  note ent = load_catalog_entries [OF assms(2)]
  obtain r evs0 fs0 where run: "fetch_loop net drug_links (map fst drug_links) 0 fs = (r, evs0, fs0)"
    by (rule prod_cases3)
  from fetch_loop_lines [OF ent(2) run]
  obtain m where m: "m \<le> length drug_links"
    "printed evs0 = loop_lines (enumerate (Suc 0) (take m drug_links))"
    "case r of
       Inr c' \<Rightarrow> m = length drug_links \<and> c' = 0 + m \<and> requested evs0 = map snd drug_links
     | Inl e \<Rightarrow> m < length drug_links \<and> e = ConnectionError
                \<and> requested evs0 = map snd (take (Suc m) drug_links)"
    by blast
  have s: "requested (summary (drug_links, drug_appid_links, counter)) = []"
    by (simp add: summary_def)
  show ?thesis
  proof (cases r)
    case (Inl e)
    then have "res = Some e" "evs = summary (drug_links, drug_appid_links, counter) @ evs0"
      using assms(1) run by (auto simp: main_fetch [OF assms(2)] keys_def)
    then show ?thesis
      using m Inl s by (intro exI [of _ m]) simp
  next
    case (Inr c')
    then have "res = None" "evs = summary (drug_links, drug_appid_links, counter) @ evs0
        @ [Print ''SRLC downloads complete!'']"
      using assms(1) run by (auto simp: main_fetch [OF assms(2)] keys_def)
    then show ?thesis
      using m Inr s by (intro exI [of _ m]) simp
  qed
qed

theorem progress_and_milestones_witness:
  "(\<exists>m\<le>length [(42 :: int, ''http://x/y&id=42&z=2''), (7, ''http://x/y&id=7&z=9'')].
      [''Total links: 3'', ''Unique entries: 2'', ''Unique entries: 2'',
       ''Saving Product Label Change: 42 URL: http://x/y&id=42&z=2'',
       ''Saving Product Label Change: 7 URL: http://x/y&id=7&z=9'',
       ''SRLC downloads complete!'']
      = printed (summary ([(42, ''http://x/y&id=42&z=2''), (7, ''http://x/y&id=7&z=9'')],
                          [(42, ''A2''), (7, ''A3'')], 3))
        @ loop_lines (enumerate 1 (take m [(42, ''http://x/y&id=42&z=2''), (7, ''http://x/y&id=7&z=9'')]))
        @ [''SRLC downloads complete!'']
      \<and> m = length [(42 :: int, ''http://x/y&id=42&z=2''), (7, ''http://x/y&id=7&z=9'')]
      \<and> [''http://x/y&id=42&z=2'', ''http://x/y&id=7&z=9'']
        = map snd [(42 :: int, ''http://x/y&id=42&z=2''), (7, ''http://x/y&id=7&z=9'')])
   \<and> (\<exists>m\<le>length [(42 :: int, ''http://x/y&id=42&z=2''), (7, ''http://x/y&id=7&z=9'')].
      [''Total links: 3'', ''Unique entries: 2'', ''Unique entries: 2'',
       ''Saving Product Label Change: 42 URL: http://x/y&id=42&z=2'']
      = printed (summary ([(42, ''http://x/y&id=42&z=2''), (7, ''http://x/y&id=7&z=9'')],
                          [(42, ''A2''), (7, ''A3'')], 3))
        @ loop_lines (enumerate 1 (take m [(42, ''http://x/y&id=42&z=2''), (7, ''http://x/y&id=7&z=9'')]))
      \<and> m < length [(42 :: int, ''http://x/y&id=42&z=2''), (7, ''http://x/y&id=7&z=9'')]
      \<and> [''http://x/y&id=42&z=2'', ''http://x/y&id=7&z=9'']
        = map snd (take (Suc m) [(42 :: int, ''http://x/y&id=42&z=2''), (7, ''http://x/y&id=7&z=9'')]))"
  using progress_and_milestones [OF main_example load_catalog_example]
    progress_and_milestones [OF main_example_aborted load_catalog_example]
  by simp

end
